theory Spec2Isabelle
  imports Main "HOL-Library.Word" "HOL-Library.Multiset"
begin

section \<open>Common types\<close>

text \<open>
  Go's \<open>uint64\<close> is a 64-bit word (\<open>+\<close> wraps, \<open><\<close> is unsigned); \<open>NodeID\<close>,
  \<open>BucketID\<close> and \<open>SeqNo\<close> are named \<open>uint64\<close> types. A byte slice is a list of
  bytes; Go's nil slice and its empty slice are told apart only where the source tests
  for nil (the digest of a sequence), and there the slice is an option.
\<close>

type_synonym uint64 = "64 word"
type_synonym NodeID = "64 word"
type_synonym BucketID = "64 word"
type_synonym SeqNo = "64 word"
type_synonym bytes = "8 word list"

datatype error = Panic string

section \<open>Protocol messages (package mirbftpb, as the source uses them)\<close>

record RequestAck =
  ack_ClientId :: bytes
  ack_ReqNo :: uint64
  ack_Digest :: bytes

record Preprepare =
  pp_SeqNo :: uint64
  pp_Epoch :: uint64
  pp_Bucket :: uint64
  pp_Batch :: "RequestAck list"

record Prepare =
  p_SeqNo :: uint64
  p_Epoch :: uint64
  p_Bucket :: uint64
  p_Digest :: bytes

record Commit =
  c_SeqNo :: uint64
  c_Epoch :: uint64
  c_Bucket :: uint64
  c_Digest :: bytes

record Checkpoint =
  cp_SeqNo :: uint64
  cp_Value :: bytes

record SetEntry =
  se_Epoch :: uint64
  se_SeqNo :: uint64
  se_Digest :: bytes

record EpochChange =
  NewEpoch :: uint64
  Checkpoints :: "Checkpoint list"
  PSet :: "SetEntry list"
  QSet :: "SetEntry list"

text \<open>
  The \<open>Type\<close> field of \<open>pb.Msg\<close> is a oneof. \<open>Msg_Unknown\<close> stands for every value the
  type switches of the source send to \<open>default\<close>: a nil \<open>Type\<close> or a variant of a foreign
  proto. Suspect and Forward carry their epoch; the payload of NewEpoch is never read.
\<close>

datatype Msg =
    Msg_Preprepare Preprepare
  | Msg_Prepare Prepare
  | Msg_Commit Commit
  | Msg_Suspect uint64
  | Msg_Checkpoint Checkpoint
  | Msg_Forward uint64 RequestAck
  | Msg_EpochChange EpochChange
  | Msg_NewEpoch
  | Msg_Unknown

section \<open>nodemsgs.go: the per-peer admitter\<close>

datatype applyable = past | current | future | invalid

text \<open>
  Modelled from the spec: the \<open>oddities\<close> recorder is declared elsewhere in the repository;
  it is a recorder of events, here the list of the events in the order they were recorded.
\<close>

datatype oddity = invalidMessage NodeID Msg | alreadyProcessed NodeID Msg

record nextMsg =
  leader :: bool
  prepare :: SeqNo
  commit :: SeqNo

text \<open>
  \<open>epochConfig\<close> is declared elsewhere in the repository; these are the fields the admitter
  reads. Go maps whose entries are ranged over are association lists with distinct keys.
\<close>

record epochConfig =
  number :: uint64
  buckets :: "(BucketID \<times> NodeID) list"
  checkpointInterval :: SeqNo

record epochMsgs =
  em_epochConfig :: epochConfig
  em_next :: "(BucketID \<times> nextMsg) list"

record nodeMsgs =
  nm_id :: NodeID
  nm_oddities :: "oddity list"
  nm_buffer :: "Msg list"
  nm_epochMsgs :: epochMsgs
  nextCheckpoint :: SeqNo

fun setEntry :: "'k \<Rightarrow> 'v \<Rightarrow> ('k \<times> 'v) list \<Rightarrow> ('k \<times> 'v) list" where
  "setEntry k v [] = [(k, v)]"
| "setEntry k v ((k', v') # m) = (if k = k' then (k, v) # m else (k', v') # setEntry k v m)"

fun newEpochMsgs_loop :: "NodeID \<Rightarrow> (BucketID \<times> NodeID) list \<Rightarrow> (BucketID \<times> nextMsg) list
    \<Rightarrow> (BucketID \<times> nextMsg) list" where
  "newEpochMsgs_loop nodeID [] nxt = nxt"
| "newEpochMsgs_loop nodeID ((bucketID, leaderID) # bs) nxt =
     newEpochMsgs_loop nodeID bs
       (setEntry bucketID \<lparr>leader = (nodeID = leaderID), prepare = 1, commit = 1\<rparr> nxt)"

definition newEpochMsgs :: "NodeID \<Rightarrow> epochConfig \<Rightarrow> epochMsgs" where
  "newEpochMsgs nodeID ec =
     \<lparr>em_epochConfig = ec, em_next = newEpochMsgs_loop nodeID (buckets ec) []\<rparr>"

definition newNodeMsgs :: "NodeID \<Rightarrow> epochConfig \<Rightarrow> oddity list \<Rightarrow> nodeMsgs" where
  "newNodeMsgs nodeID ec ods =
     \<lparr>nm_id = nodeID, nm_oddities = ods, nm_buffer = [],
      nm_epochMsgs = newEpochMsgs nodeID ec, nextCheckpoint = checkpointInterval ec\<rparr>"

definition newEpoch :: "nodeMsgs \<Rightarrow> epochConfig \<Rightarrow> nodeMsgs" where
  "newEpoch n ec = n\<lparr>nm_epochMsgs := newEpochMsgs (nm_id n) ec\<rparr>"

definition ingest :: "nodeMsgs \<Rightarrow> Msg \<Rightarrow> nodeMsgs" where
  "ingest n outerMsg = n\<lparr>nm_buffer := nm_buffer n @ [outerMsg]\<rparr>"

definition processPreprepare :: "epochMsgs \<Rightarrow> Preprepare \<Rightarrow> applyable \<times> epochMsgs" where
  "processPreprepare e msg =
     (case map_of (em_next e) (pp_Bucket msg) of
        None \<Rightarrow> (invalid, e)
      | Some nxt \<Rightarrow>
          if \<not> leader nxt then (invalid, e)
          else if prepare nxt > pp_SeqNo msg then (past, e)
          else if prepare nxt = pp_SeqNo msg then
            (current, e\<lparr>em_next := setEntry (pp_Bucket msg) (nxt\<lparr>prepare := pp_SeqNo msg + 1\<rparr>) (em_next e)\<rparr>)
          else (future, e))"

definition processPrepare :: "epochMsgs \<Rightarrow> Prepare \<Rightarrow> applyable \<times> epochMsgs" where
  "processPrepare e msg =
     (case map_of (em_next e) (p_Bucket msg) of
        None \<Rightarrow> (invalid, e)
      | Some nxt \<Rightarrow>
          if leader nxt then (invalid, e)
          else if prepare nxt > p_SeqNo msg then (past, e)
          else if prepare nxt = p_SeqNo msg then
            (current, e\<lparr>em_next := setEntry (p_Bucket msg) (nxt\<lparr>prepare := p_SeqNo msg + 1\<rparr>) (em_next e)\<rparr>)
          else (future, e))"

definition processCommit :: "epochMsgs \<Rightarrow> Commit \<Rightarrow> applyable \<times> epochMsgs" where
  "processCommit e msg =
     (case map_of (em_next e) (c_Bucket msg) of
        None \<Rightarrow> (invalid, e)
      | Some nxt \<Rightarrow>
          if commit nxt > c_SeqNo msg then (past, e)
          else if commit nxt = c_SeqNo msg \<and> prepare nxt > commit nxt then
            (current, e\<lparr>em_next := setEntry (c_Bucket msg) (nxt\<lparr>commit := c_SeqNo msg + 1\<rparr>) (em_next e)\<rparr>)
          else (future, e))"

fun epochMsgs_process :: "epochMsgs \<Rightarrow> Msg \<Rightarrow> (error + applyable) \<times> epochMsgs" where
  "epochMsgs_process e (Msg_Preprepare m) = (let (a, e') = processPreprepare e m in (Inr a, e'))"
| "epochMsgs_process e (Msg_Prepare m) = (let (a, e') = processPrepare e m in (Inr a, e'))"
| "epochMsgs_process e (Msg_Commit m) = (let (a, e') = processCommit e m in (Inr a, e'))"
| "epochMsgs_process e (Msg_Checkpoint m) =
     (Inl (Panic ''programming error, checkpoints should not go through this path''), e)"
| "epochMsgs_process e (Msg_Forward ep a) = (Inr current, e)"
| "epochMsgs_process e (Msg_Suspect ep) = (Inr current, e)"
| "epochMsgs_process e (Msg_EpochChange m) = (Inr current, e)"
| "epochMsgs_process e Msg_NewEpoch =
     (Inl (Panic ''programming error, new epochs should not go through this path''), e)"
| "epochMsgs_process e Msg_Unknown = (Inl (Panic ''programming error, unreachable''), e)"

text \<open>The range over \<open>n.epochMsgs.next\<close> in \<open>processCheckpoint\<close>: true when the loop returns \<open>future\<close>.\<close>

fun someCommitBelow :: "SeqNo \<Rightarrow> (BucketID \<times> nextMsg) list \<Rightarrow> bool" where
  "someCommitBelow s [] = False"
| "someCommitBelow s ((b, nxt) # m) = (if commit nxt < s then True else someCommitBelow s m)"

definition processCheckpoint :: "nodeMsgs \<Rightarrow> Checkpoint \<Rightarrow> (error + applyable) \<times> nodeMsgs" where
  "processCheckpoint n msg =
     (if nextCheckpoint n > cp_SeqNo msg then (Inr past, n)
      else if nextCheckpoint n = cp_SeqNo msg then
        (if someCommitBelow (cp_SeqNo msg) (em_next (nm_epochMsgs n)) then (Inr future, n)
         else (Inr current,
               n\<lparr>nextCheckpoint := cp_SeqNo msg + checkpointInterval (em_epochConfig (nm_epochMsgs n))\<rparr>))
      else (Inr future, n))"

text \<open>The second switch of \<open>nodeMsgs.process\<close>, reached with the epoch the first switch read.\<close>

definition epochSwitch :: "nodeMsgs \<Rightarrow> uint64 \<Rightarrow> Msg \<Rightarrow> (error + applyable) \<times> nodeMsgs" where
  "epochSwitch n epoch outerMsg =
     (if number (em_epochConfig (nm_epochMsgs n)) < epoch then (Inr past, n)
      else if number (em_epochConfig (nm_epochMsgs n)) > epoch then (Inr future, n)
      else (let (r, e') = epochMsgs_process (nm_epochMsgs n) outerMsg
            in (r, n\<lparr>nm_epochMsgs := e'\<rparr>)))"

fun nodeMsgs_process :: "nodeMsgs \<Rightarrow> Msg \<Rightarrow> (error + applyable) \<times> nodeMsgs" where
  "nodeMsgs_process n (Msg_Preprepare m) = epochSwitch n (pp_Epoch m) (Msg_Preprepare m)"
| "nodeMsgs_process n (Msg_Prepare m) = epochSwitch n (p_Epoch m) (Msg_Prepare m)"
| "nodeMsgs_process n (Msg_Commit m) = epochSwitch n (c_Epoch m) (Msg_Commit m)"
| "nodeMsgs_process n (Msg_Suspect ep) = epochSwitch n ep (Msg_Suspect ep)"
| "nodeMsgs_process n (Msg_Checkpoint m) = processCheckpoint n m"
| "nodeMsgs_process n (Msg_Forward ep a) = epochSwitch n ep (Msg_Forward ep a)"
| "nodeMsgs_process n (Msg_EpochChange m) = epochSwitch n (NewEpoch m) (Msg_EpochChange m)"
| "nodeMsgs_process n Msg_NewEpoch = (Inr current, n)"
| "nodeMsgs_process n Msg_Unknown =
     (Inl (Panic ''unknown message type''),
      n\<lparr>nm_oddities := nm_oddities n @ [invalidMessage (nm_id n) Msg_Unknown]\<rparr>)"

text \<open>
  \<open>next\<close> ranges over the buffer in an order Go chooses at each call: the order is the
  argument \<open>ord\<close>, an enumeration of the buffer. The result is the released message
  (\<open>None\<close> for nil), or the panic of \<open>process\<close>, with the state left behind.
\<close>

fun next_loop :: "nodeMsgs \<Rightarrow> Msg list \<Rightarrow> (error + Msg option) \<times> nodeMsgs" where
  "next_loop n [] = (Inr None, n)"
| "next_loop n (msg # ord) =
     (case nodeMsgs_process n msg of
        (Inl e, n') \<Rightarrow> (Inl e, n')
      | (Inr past, n') \<Rightarrow>
          next_loop (n'\<lparr>nm_oddities := nm_oddities n' @ [alreadyProcessed (nm_id n') msg],
                        nm_buffer := remove1 msg (nm_buffer n')\<rparr>) ord
      | (Inr current, n') \<Rightarrow> (Inr (Some msg), n'\<lparr>nm_buffer := remove1 msg (nm_buffer n')\<rparr>)
      | (Inr future, n') \<Rightarrow> next_loop n' ord
      | (Inr invalid, n') \<Rightarrow> next_loop n' ord)"

definition nodeMsgs_next :: "nodeMsgs \<Rightarrow> Msg list \<Rightarrow> (error + Msg option) \<times> nodeMsgs" where
  "nodeMsgs_next n ord = next_loop n ord"

text \<open>
  The calls a peer's admitter receives. A run is a list of them; \<open>applyOps\<close> leaves
  the state a panic left behind in place, as Go does when the panic is recovered.
\<close>

datatype admitterOp = IngestOp Msg | ProcessOp Msg | NextOp "Msg list" | NewEpochOp epochConfig

fun applyOp :: "nodeMsgs \<Rightarrow> admitterOp \<Rightarrow> nodeMsgs" where
  "applyOp n (IngestOp m) = ingest n m"
| "applyOp n (ProcessOp m) = snd (nodeMsgs_process n m)"
| "applyOp n (NextOp ord) = snd (nodeMsgs_next n ord)"
| "applyOp n (NewEpochOp ec) = newEpoch n ec"

fun applyOps :: "nodeMsgs \<Rightarrow> admitterOp list \<Rightarrow> nodeMsgs" where
  "applyOps n [] = n"
| "applyOps n (op # ops) = applyOps (applyOp n op) ops"

definition cursorsOrdered :: "nodeMsgs \<Rightarrow> bool" where
  "cursorsOrdered n = list_all (\<lambda>(b, nxt). commit nxt \<le> prepare nxt) (em_next (nm_epochMsgs n))"

fun processAll :: "nodeMsgs \<Rightarrow> Msg list \<Rightarrow> nodeMsgs" where
  "processAll n [] = n"
| "processAll n (m # ms) = processAll (snd (nodeMsgs_process n m)) ms"

text \<open>Every cursor pair is ordered and the prepare cursor is at most \<open>k + 1\<close>.\<close>

definition emBounded :: "nat \<Rightarrow> epochMsgs \<Rightarrow> bool" where
  "emBounded k e = (\<forall>(b, nxt) \<in> set (em_next e). commit nxt \<le> prepare nxt \<and> unat (prepare nxt) \<le> Suc k)"


section \<open>Quorum arithmetic\<close>

text \<open>
  \<open>pb.NetworkState_Config\<close> is declared elsewhere in the repository. The conversions the
  source applies (\<open>int(nc.F)\<close>, \<open>int(nc.CheckpointInterval)\<close>, \<open>uint64(nc.NumberOfBuckets)\<close>)
  and the sum \<open>maxCheckpoint.SeqNo + config.MaxEpochLength\<close> fix its fields as: a list of
  \<open>uint64\<close> node ids, three \<open>int32\<close> and a \<open>uint64\<close>. Go's \<open>int\<close> is 64 bits wide;
  a slice length plus an \<open>int32\<close> plus 2 cannot leave it, so the quorum sums are
  integers. Go's \<open>/\<close> truncates towards zero: \<open>goDiv\<close>.
\<close>

record NetworkState_Config =
  Nodes :: "uint64 list"
  F :: "32 word"
  CheckpointInterval :: "32 word"
  NumberOfBuckets :: "32 word"
  MaxEpochLength :: uint64

definition goDiv :: "int \<Rightarrow> int \<Rightarrow> int" where
  "goDiv a b = (if (a < 0) = (b < 0) then \<bar>a\<bar> div \<bar>b\<bar> else - (\<bar>a\<bar> div \<bar>b\<bar>))"

definition intersectionQuorum :: "NetworkState_Config \<Rightarrow> int" where
  "intersectionQuorum nc = goDiv (int (length (Nodes nc)) + sint (F nc) + 2) 2"

definition someCorrectQuorum :: "NetworkState_Config \<Rightarrow> int" where
  "someCorrectQuorum nc = sint (F nc) + 1"

definition logWidth :: "NetworkState_Config \<Rightarrow> int" where
  "logWidth nc = 3 * sint (CheckpointInterval nc)"

section \<open>The sequence state machine\<close>

datatype sequenceState =
    sequenceUninitialized
  | sequenceAllocated
  | sequencePendingRequests
  | sequenceReady
  | sequencePreprepared
  | sequencePrepared
  | sequenceCommitted

text \<open>The \<open>iota\<close> value of a state.\<close>

fun stateNum :: "sequenceState \<Rightarrow> nat" where
  "stateNum sequenceUninitialized = 0"
| "stateNum sequenceAllocated = 1"
| "stateNum sequencePendingRequests = 2"
| "stateNum sequenceReady = 3"
| "stateNum sequencePreprepared = 4"
| "stateNum sequencePrepared = 5"
| "stateNum sequenceCommitted = 6"

record QEntry =
  qe_SeqNo :: uint64
  qe_Digest :: "bytes option"
  qe_Requests :: "RequestAck list"

record PEntry =
  pe_SeqNo :: uint64
  pe_Digest :: "bytes option"

text \<open>
  Modelled from the spec: \<open>Actions\<close> is declared elsewhere in the repository; it is an
  append-only collector (\<open>send\<close>, \<open>forwardRequest\<close>, the \<open>Hash\<close> list, \<open>concat\<close>), here the
  list of what was collected. The persisted log (\<open>addQEntry\<close>, \<open>addPEntry\<close>) is declared
  elsewhere as well: it records the entry and returns actions that the sequence appends to its own.
\<close>

record HashResult_Batch =
  hb_Source :: uint64
  hb_SeqNo :: uint64
  hb_Epoch :: uint64
  hb_RequestAcks :: "RequestAck list"

record HashRequest =
  hr_Data :: "bytes list"
  hr_Origin :: HashResult_Batch

datatype Action =
    Send "uint64 list" Msg
  | ForwardRequest "uint64 list" RequestAck
  | Hash HashRequest
  | PersistQ QEntry
  | PersistP PEntry

type_synonym Actions = "Action list"

text \<open>
  \<open>myConfig_Id\<close> is \<open>myConfig.Id\<close>, the id of the local node. \<open>digest\<close> is tested for nil
  by \<open>advanceState\<close>, so it is an option. A tally map sends the string of a digest to the
  set of nodes that agreed on it; node ids are 64-bit words, so every such set is finite. A
  nil \<open>outstandingReqs\<close> map behaves as the empty set in every use the source makes of it.
\<close>

record sequence =
  owner :: NodeID
  seqNo :: uint64
  epoch :: uint64
  myConfig_Id :: uint64
  networkConfig :: NetworkState_Config
  state :: sequenceState
  persisted :: "Action list"
  qEntry :: "QEntry option"
  batch :: "RequestAck list"
  outstandingReqs :: "bytes set"
  digest :: "bytes option"
  prepares :: "bytes \<rightharpoonup> NodeID set"
  commits :: "bytes \<rightharpoonup> NodeID set"

text \<open>\<open>string(digest)\<close>: nil and the empty slice both give the empty string.\<close>

definition string_of :: "bytes option \<Rightarrow> bytes" where
  "string_of d = (case d of None \<Rightarrow> [] | Some b \<Rightarrow> b)"

text \<open>A tally read: a missing key gives the nil map, which has no member and length 0.\<close>

definition agreementsOf :: "(bytes \<rightharpoonup> NodeID set) \<Rightarrow> bytes option \<Rightarrow> NodeID set" where
  "agreementsOf m d = (case m (string_of d) of None \<Rightarrow> {} | Some a \<Rightarrow> a)"

definition newSequence :: "NodeID \<Rightarrow> uint64 \<Rightarrow> uint64 \<Rightarrow> Action list \<Rightarrow> NetworkState_Config \<Rightarrow> uint64 \<Rightarrow> sequence" where
  "newSequence own ep sn pers nc myId =
     \<lparr>owner = own, seqNo = sn, epoch = ep, myConfig_Id = myId, networkConfig = nc,
      state = sequenceUninitialized, persisted = pers, qEntry = None, batch = [],
      outstandingReqs = {}, digest = None, prepares = Map.empty, commits = Map.empty\<rparr>"

definition addQEntry :: "sequence \<Rightarrow> QEntry \<Rightarrow> Actions \<times> sequence" where
  "addQEntry s qe = ([PersistQ qe], s\<lparr>persisted := persisted s @ [PersistQ qe]\<rparr>)"

definition addPEntry :: "sequence \<Rightarrow> PEntry \<Rightarrow> Actions \<times> sequence" where
  "addPEntry s pe = ([PersistP pe], s\<lparr>persisted := persisted s @ [PersistP pe]\<rparr>)"

definition checkRequests :: "sequence \<Rightarrow> sequence" where
  "checkRequests s = (if outstandingReqs s \<noteq> {} then s else s\<lparr>state := sequenceReady\<rparr>)"

definition sequence_prepare :: "sequence \<Rightarrow> Actions \<times> sequence" where
  "sequence_prepare s =
     (let qe = \<lparr>qe_SeqNo = seqNo s, qe_Digest = digest s, qe_Requests = batch s\<rparr>;
          s1 = s\<lparr>qEntry := Some qe, state := sequencePreprepared\<rparr>;
          actions =
            (if owner s1 = myConfig_Id s1 then
               map (ForwardRequest (Nodes (networkConfig s1))) (batch s1) @
               [Send (Nodes (networkConfig s1))
                  (Msg_Preprepare \<lparr>pp_SeqNo = seqNo s1, pp_Epoch = epoch s1, pp_Bucket = 0,
                                   pp_Batch = batch s1\<rparr>)]
             else
               [Send (Nodes (networkConfig s1))
                  (Msg_Prepare \<lparr>p_SeqNo = seqNo s1, p_Epoch = epoch s1, p_Bucket = 0,
                                p_Digest = string_of (digest s1)\<rparr>)]);
          (a, s2) = addQEntry s1 qe
      in (actions @ a, s2))"

definition checkPrepareQuorum :: "sequence \<Rightarrow> Actions \<times> sequence" where
  "checkPrepareQuorum s =
     (let agreements = agreementsOf (prepares s) (digest s) in
      if myConfig_Id s \<notin> agreements then ([], s)
      else if int (card agreements) < intersectionQuorum (networkConfig s) then ([], s)
      else
        (let s1 = s\<lparr>state := sequencePrepared\<rparr>;
             pe = \<lparr>pe_SeqNo = seqNo s1, pe_Digest = digest s1\<rparr>;
             actions = [Send (Nodes (networkConfig s1))
                          (Msg_Commit \<lparr>c_SeqNo = seqNo s1, c_Epoch = epoch s1, c_Bucket = 0,
                                       c_Digest = string_of (digest s1)\<rparr>)];
             (a, s2) = addPEntry s1 pe
         in (actions @ a, s2)))"

definition checkCommitQuorum :: "sequence \<Rightarrow> sequence" where
  "checkCommitQuorum s =
     (let agreements = agreementsOf (commits s) (digest s) in
      if myConfig_Id s \<notin> agreements then s
      else if int (card agreements) < intersectionQuorum (networkConfig s) then s
      else s\<lparr>state := sequenceCommitted\<rparr>)"

text \<open>One pass through the body of the loop of \<open>advanceState\<close>.\<close>

definition advanceBody :: "sequence \<Rightarrow> Actions \<times> sequence" where
  "advanceBody s =
     (case state s of
        sequenceUninitialized \<Rightarrow> ([], s)
      | sequenceAllocated \<Rightarrow> ([], s)
      | sequencePendingRequests \<Rightarrow> ([], checkRequests s)
      | sequenceReady \<Rightarrow>
          if digest s \<noteq> None \<or> length (batch s) = 0 then sequence_prepare s else ([], s)
      | sequencePreprepared \<Rightarrow> checkPrepareQuorum s
      | sequencePrepared \<Rightarrow> ([], checkCommitQuorum s)
      | sequenceCommitted \<Rightarrow> ([], s))"

function advanceState_loop :: "Actions \<Rightarrow> sequence \<Rightarrow> Actions \<times> sequence" where
  "advanceState_loop actions s =
     (let r = advanceBody s; actions' = actions @ fst r in
      if state (snd r) = state s then (actions', snd r)
      else advanceState_loop actions' (snd r))"
  by pat_completeness auto
termination
proof (relation "measure (\<lambda>(actions, s). 6 - stateNum (state s))")
  show "wf (measure (\<lambda>(actions, s). 6 - stateNum (state s)))" by simp
next
  fix actions :: Actions and s :: sequence and r actions'
  assume r: "r = advanceBody s" and "state (snd r) \<noteq> state s"
  then have "stateNum (state s) < stateNum (state (snd r)) \<and> stateNum (state (snd r)) \<le> 6"
    by (cases "state s")
      (auto simp: advanceBody_def checkRequests_def sequence_prepare_def checkPrepareQuorum_def
        checkCommitQuorum_def addQEntry_def addPEntry_def Let_def split: if_splits)
  then have "6 - stateNum (state (snd r)) < 6 - stateNum (state s)"
    by arith
  then show "((actions', snd r), (actions, s)) \<in> measure (\<lambda>(actions, s). 6 - stateNum (state s))"
    by simp
qed

declare advanceState_loop.simps [simp del]

definition advanceState :: "sequence \<Rightarrow> Actions \<times> sequence" where
  "advanceState s = advanceState_loop [] s"

definition applyPrepareMsg :: "sequence \<Rightarrow> NodeID \<Rightarrow> bytes option \<Rightarrow> Actions \<times> sequence" where
  "applyPrepareMsg s source d =
     (let agreements = (case prepares s (string_of d) of None \<Rightarrow> {} | Some a \<Rightarrow> a)
      in advanceState (s\<lparr>prepares := (prepares s)(string_of d \<mapsto> insert source agreements)\<rparr>))"

definition applyCommitMsg :: "sequence \<Rightarrow> NodeID \<Rightarrow> bytes option \<Rightarrow> Actions \<times> sequence" where
  "applyCommitMsg s source d =
     (let agreements = (case commits s (string_of d) of None \<Rightarrow> {} | Some a \<Rightarrow> a)
      in advanceState (s\<lparr>commits := (commits s)(string_of d \<mapsto> insert source agreements)\<rparr>))"

definition applyBatchHashResult :: "sequence \<Rightarrow> bytes option \<Rightarrow> Actions \<times> sequence" where
  "applyBatchHashResult s d = applyPrepareMsg (s\<lparr>digest := d\<rparr>) (owner s) d"

definition allocate :: "sequence \<Rightarrow> RequestAck list \<Rightarrow> bytes set \<Rightarrow> error + Actions \<times> sequence" where
  "allocate s requestAcks outstanding =
     (if state s \<noteq> sequenceUninitialized then Inl (Panic ''illegal state for allocate'')
      else
        (let s1 = s\<lparr>state := sequenceAllocated, batch := requestAcks, outstandingReqs := outstanding\<rparr>
         in if length requestAcks = 0 then
              Inr (applyBatchHashResult (s1\<lparr>state := sequenceReady\<rparr>) None)
            else
              (let data = map ack_Digest requestAcks;
                   actions = [Hash \<lparr>hr_Data = data,
                                hr_Origin = \<lparr>hb_Source = owner s1, hb_SeqNo = seqNo s1,
                                   hb_Epoch = epoch s1, hb_RequestAcks = requestAcks\<rparr>\<rparr>];
                   s2 = s1\<lparr>state := sequencePendingRequests\<rparr>;
                   r = advanceState s2
               in Inr (actions @ fst r, snd r))))"

definition allocateAsOwner :: "sequence \<Rightarrow> RequestAck list \<Rightarrow> error + Actions \<times> sequence" where
  "allocateAsOwner s clientRequestAcks = allocate s clientRequestAcks {}"

definition satisfyOutstanding :: "sequence \<Rightarrow> RequestAck \<Rightarrow> error + Actions \<times> sequence" where
  "satisfyOutstanding s fr =
     (if ack_Digest fr \<notin> outstandingReqs s then Inl (Panic ''dev sanity check'')
      else Inr (advanceState (s\<lparr>outstandingReqs := outstandingReqs s - {ack_Digest fr}\<rparr>)))"

text \<open>The calls a sequence receives.\<close>

datatype seqOp =
    Allocate "RequestAck list" "bytes set"
  | AllocateAsOwner "RequestAck list"
  | SatisfyOutstanding RequestAck
  | ApplyBatchHashResult "bytes option"
  | ApplyPrepareMsg NodeID "bytes option"
  | ApplyCommitMsg NodeID "bytes option"

fun applySeqOp :: "sequence \<Rightarrow> seqOp \<Rightarrow> error + Actions \<times> sequence" where
  "applySeqOp s (Allocate acks outstanding) = allocate s acks outstanding"
| "applySeqOp s (AllocateAsOwner acks) = allocateAsOwner s acks"
| "applySeqOp s (SatisfyOutstanding fr) = satisfyOutstanding s fr"
| "applySeqOp s (ApplyBatchHashResult d) = Inr (applyBatchHashResult s d)"
| "applySeqOp s (ApplyPrepareMsg source d) = Inr (applyPrepareMsg s source d)"
| "applySeqOp s (ApplyCommitMsg source d) = Inr (applyCommitMsg s source d)"


section \<open>Construction of the new epoch configuration\<close>

record EpochConfig =
  Number :: uint64
  Leaders :: "uint64 list"
  PlannedExpiration :: uint64

record NewEpochConfig =
  Config :: EpochConfig
  StartingCheckpoint :: Checkpoint
  FinalPreprepares :: "bytes list"

text \<open>
  \<open>parsedEpochChange\<close> is declared elsewhere in the repository; these are the fields
  \<open>constructNewEpochConfig\<close> reads. The inner map of \<open>qSet\<close> is ranged over, so it is an
  association list.
\<close>

record parsedEpochChange =
  underlying :: EpochChange
  lowWatermark :: uint64
  pSet :: "uint64 \<rightharpoonup> SetEntry"
  qSet :: "uint64 \<rightharpoonup> (uint64 \<times> bytes) list"

record checkpointKey =
  ck_SeqNo :: uint64
  ck_Value :: bytes

text \<open>
  The map \<open>epochChanges\<close> is an association list with distinct keys, listed in the order
  the first range statement visits it. The local map \<open>checkpoints\<close> is an association list
  as well; the order in which the second range statement visits its keys is the argument
  \<open>cpOrder\<close> of \<open>constructNewEpochConfig\<close> (\<open>rangeOrder\<close> says that it enumerates the keys). The
  other range statements only count, and a count does not depend on the order.
\<close>

type_synonym epochChanges = "(NodeID \<times> parsedEpochChange) list"
type_synonym checkpointMap = "(checkpointKey \<times> NodeID list) list"

definition supportersOf :: "checkpointMap \<Rightarrow> checkpointKey \<Rightarrow> NodeID list" where
  "supportersOf cps key = (case map_of cps key of None \<Rightarrow> [] | Some l \<Rightarrow> l)"

text \<open>Lines 65 to 76: the last epoch change visited sets \<open>newEpochNumber\<close>.\<close>

fun addCheckpoints :: "NodeID \<Rightarrow> Checkpoint list \<Rightarrow> checkpointMap \<Rightarrow> checkpointMap" where
  "addCheckpoints nodeID [] cps = cps"
| "addCheckpoints nodeID (checkpoint # cs) cps =
     (let key = \<lparr>ck_SeqNo = cp_SeqNo checkpoint, ck_Value = cp_Value checkpoint\<rparr>
      in addCheckpoints nodeID cs (setEntry key (supportersOf cps key @ [nodeID]) cps))"

fun collectCheckpoints :: "epochChanges \<Rightarrow> uint64 \<times> checkpointMap \<Rightarrow> uint64 \<times> checkpointMap" where
  "collectCheckpoints [] acc = acc"
| "collectCheckpoints ((nodeID, epochChange) # ecs) (newEpochNumber, cps) =
     collectCheckpoints ecs
       (NewEpoch (underlying epochChange),
        addCheckpoints nodeID (Checkpoints (underlying epochChange)) cps)"

fun nodesWithLowerWatermark :: "epochChanges \<Rightarrow> uint64 \<Rightarrow> int" where
  "nodesWithLowerWatermark [] s = 0"
| "nodesWithLowerWatermark ((nodeID, epochChange) # ecs) s =
     (if lowWatermark epochChange \<le> s then nodesWithLowerWatermark ecs s + 1
      else nodesWithLowerWatermark ecs s)"

text \<open>Lines 80 to 111. The panic message is kept without its formatted arguments.\<close>

fun selectCheckpoint :: "NetworkState_Config \<Rightarrow> epochChanges \<Rightarrow> checkpointMap \<Rightarrow>
    checkpointKey list \<Rightarrow> checkpointKey option \<Rightarrow> error + checkpointKey option" where
  "selectCheckpoint config ecs cps [] maxCheckpoint = Inr maxCheckpoint"
| "selectCheckpoint config ecs cps (key # keys) maxCheckpoint =
     (if int (length (supportersOf cps key)) < someCorrectQuorum config then
        selectCheckpoint config ecs cps keys maxCheckpoint
      else if nodesWithLowerWatermark ecs (ck_SeqNo key) < intersectionQuorum config then
        selectCheckpoint config ecs cps keys maxCheckpoint
      else
        (case maxCheckpoint of
           None \<Rightarrow> selectCheckpoint config ecs cps keys (Some key)
         | Some m \<Rightarrow>
             if ck_SeqNo m > ck_SeqNo key then selectCheckpoint config ecs cps keys maxCheckpoint
             else if ck_SeqNo m = ck_SeqNo key then
               Inl (Panic ''two correct quorums have different checkpoints for same seqno'')
             else selectCheckpoint config ecs cps keys (Some key)))"

fun a1Count :: "epochChanges \<Rightarrow> uint64 \<Rightarrow> SetEntry \<Rightarrow> int" where
  "a1Count [] sn entry = 0"
| "a1Count ((i, iEpochChange) # ecs) sn entry =
     (if lowWatermark iEpochChange \<ge> sn then a1Count ecs sn entry
      else
        (case pSet iEpochChange sn of
           None \<Rightarrow> a1Count ecs sn entry + 1
         | Some iEntry \<Rightarrow>
             if se_Epoch iEntry < se_Epoch entry then a1Count ecs sn entry + 1
             else if se_Epoch iEntry > se_Epoch entry then a1Count ecs sn entry
             else if se_Digest entry = se_Digest iEntry then a1Count ecs sn entry + 1
             else a1Count ecs sn entry))"

text \<open>The inner loop of the A2 count: true when it reaches \<open>a2Count++\<close>.\<close>

fun qSetAgrees :: "(uint64 \<times> bytes) list \<Rightarrow> SetEntry \<Rightarrow> bool" where
  "qSetAgrees [] entry = False"
| "qSetAgrees ((ep, dg) # epochEntries) entry =
     (if ep < se_Epoch entry then qSetAgrees epochEntries entry
      else if se_Digest entry \<noteq> dg then qSetAgrees epochEntries entry
      else True)"

fun a2Count :: "epochChanges \<Rightarrow> uint64 \<Rightarrow> SetEntry \<Rightarrow> int" where
  "a2Count [] sn entry = 0"
| "a2Count ((i, iEpochChange) # ecs) sn entry =
     (case qSet iEpochChange sn of
        None \<Rightarrow> a2Count ecs sn entry
      | Some epochEntries \<Rightarrow>
          if qSetAgrees epochEntries entry then a2Count ecs sn entry + 1
          else a2Count ecs sn entry)"

fun bCount :: "epochChanges \<Rightarrow> uint64 \<Rightarrow> int" where
  "bCount [] sn = 0"
| "bCount ((i, epochChange) # ecs) sn =
     (if lowWatermark epochChange \<ge> sn then bCount ecs sn
      else if pSet epochChange sn = None then bCount ecs sn + 1
      else bCount ecs sn)"

text \<open>Lines 137 to 206: the loop over \<open>config.Nodes\<close>; the result is \<open>selectedEntry\<close>.\<close>

fun selectEntry :: "NetworkState_Config \<Rightarrow> epochChanges \<Rightarrow> uint64 \<Rightarrow> uint64 list \<Rightarrow> SetEntry option" where
  "selectEntry config ecs sn [] = None"
| "selectEntry config ecs sn (nodeID # nodes) =
     (case map_of ecs nodeID of
        None \<Rightarrow> selectEntry config ecs sn nodes
      | Some epochChange \<Rightarrow>
          (case pSet epochChange sn of
             None \<Rightarrow> selectEntry config ecs sn nodes
           | Some entry \<Rightarrow>
               if a1Count ecs sn entry < intersectionQuorum config then
                 selectEntry config ecs sn nodes
               else if a2Count ecs sn entry < someCorrectQuorum config then
                 selectEntry config ecs sn nodes
               else Some entry))"

text \<open>
  Lines 132 to 229: the loop over the offsets of \<open>FinalPreprepares\<close>; \<open>None\<close> is the
  \<open>return nil\<close> of line 227.
\<close>

fun fillPreprepares :: "NetworkState_Config \<Rightarrow> epochChanges \<Rightarrow> checkpointKey \<Rightarrow> nat list \<Rightarrow>
    bytes list \<times> bool \<Rightarrow> (bytes list \<times> bool) option" where
  "fillPreprepares config ecs maxCheckpoint [] acc = Some acc"
| "fillPreprepares config ecs maxCheckpoint (seqNoOffset # offs) (finalPreprepares, anySelected) =
     (let sn = of_nat seqNoOffset + ck_SeqNo maxCheckpoint + 1 in
      case selectEntry config ecs sn (Nodes config) of
        Some selectedEntry \<Rightarrow>
          fillPreprepares config ecs maxCheckpoint offs
            (finalPreprepares[seqNoOffset := se_Digest selectedEntry], True)
      | None \<Rightarrow>
          if bCount ecs sn < intersectionQuorum config then None
          else fillPreprepares config ecs maxCheckpoint offs (finalPreprepares, anySelected))"

text \<open>
  Lines 117 to 235, reached with the checkpoint selected. \<open>make\<close> panics on a negative
  length; \<open>2*config.CheckpointInterval\<close> is an \<open>int32\<close> product and wraps.
\<close>

definition buildNewEpochConfig :: "NetworkState_Config \<Rightarrow> uint64 list \<Rightarrow> epochChanges \<Rightarrow>
    uint64 \<Rightarrow> checkpointKey \<Rightarrow> error + NewEpochConfig option" where
  "buildNewEpochConfig config newLeaders ecs newEpochNumber maxCheckpoint =
     (let n = sint (2 * CheckpointInterval config) in
      if n < 0 then Inl (Panic ''makeslice: len out of range'')
      else
        (case fillPreprepares config ecs maxCheckpoint [0..<nat n]
                (replicate (nat n) [], False) of
           None \<Rightarrow> Inr None
         | Some (finalPreprepares, anySelected) \<Rightarrow>
             Inr (Some
               \<lparr>Config = \<lparr>Number = newEpochNumber, Leaders = newLeaders,
                   PlannedExpiration = ck_SeqNo maxCheckpoint + MaxEpochLength config\<rparr>,
                StartingCheckpoint = \<lparr>cp_SeqNo = ck_SeqNo maxCheckpoint,
                   cp_Value = ck_Value maxCheckpoint\<rparr>,
                FinalPreprepares = (if anySelected then finalPreprepares else [])\<rparr>)))"

definition constructNewEpochConfig :: "NetworkState_Config \<Rightarrow> uint64 list \<Rightarrow> epochChanges \<Rightarrow>
    checkpointKey list \<Rightarrow> error + NewEpochConfig option" where
  "constructNewEpochConfig config newLeaders ecs cpOrder =
     (let (newEpochNumber, checkpoints) = collectCheckpoints ecs (0, []) in
      case selectCheckpoint config ecs checkpoints cpOrder None of
        Inl e \<Rightarrow> Inl e
      | Inr None \<Rightarrow> Inr None
      | Inr (Some maxCheckpoint) \<Rightarrow>
          buildNewEpochConfig config newLeaders ecs newEpochNumber maxCheckpoint)"

section \<open>The admitter: what a run accepts\<close>


text \<open>The bucket and the sequence number of a Preprepare or of a Prepare.\<close>

fun prepareKey :: "Msg \<Rightarrow> (BucketID \<times> SeqNo) option" where
  "prepareKey (Msg_Preprepare m) = Some (pp_Bucket m, pp_SeqNo m)"
| "prepareKey (Msg_Prepare m) = Some (p_Bucket m, p_SeqNo m)"
| "prepareKey m = None"

text \<open>
  The message a call accepts: the one \<open>process\<close> classifies \<open>current\<close>, or the one \<open>next\<close>
  releases.
\<close>

fun accepted :: "nodeMsgs \<Rightarrow> admitterOp \<Rightarrow> Msg option" where
  "accepted n (ProcessOp m) = (if fst (nodeMsgs_process n m) = Inr current then Some m else None)"
| "accepted n (NextOp ord) =
     (case fst (nodeMsgs_next n ord) of Inr (Some m) \<Rightarrow> Some m | _ \<Rightarrow> None)"
| "accepted n (IngestOp m) = None"
| "accepted n (NewEpochOp ec) = None"

text \<open>
  The Preprepares and Prepares a run has accepted since its last \<open>newEpoch\<close>, by bucket and
  sequence number: \<open>newEpoch\<close> starts the cursors, and this record, afresh.
\<close>

fun notePrepare :: "(BucketID \<times> SeqNo) list \<Rightarrow> Msg option \<Rightarrow> (BucketID \<times> SeqNo) list" where
  "notePrepare acc None = acc"
| "notePrepare acc (Some m) = (case prepareKey m of None \<Rightarrow> acc | Some k \<Rightarrow> k # acc)"

fun noteAccepted :: "(BucketID \<times> SeqNo) list \<Rightarrow> nodeMsgs \<Rightarrow> admitterOp \<Rightarrow> (BucketID \<times> SeqNo) list" where
  "noteAccepted acc n (NewEpochOp ec) = []"
| "noteAccepted acc n op = notePrepare acc (accepted n op)"

fun acceptedPrepares :: "nodeMsgs \<Rightarrow> admitterOp list \<Rightarrow> (BucketID \<times> SeqNo) list
    \<Rightarrow> (BucketID \<times> SeqNo) list" where
  "acceptedPrepares n [] acc = acc"
| "acceptedPrepares n (op # ops) acc =
     acceptedPrepares (applyOp n op) ops (noteAccepted acc n op)"

text \<open>
  Every sequence number from the commit cursor of a bucket up to, and without, its
  prepare cursor is that of an accepted Preprepare or Prepare of the bucket.
\<close>

definition preparesAccepted :: "epochMsgs \<Rightarrow> (BucketID \<times> SeqNo) list \<Rightarrow> bool" where
  "preparesAccepted e acc \<longleftrightarrow>
     (\<forall>b nxt s. map_of (em_next e) b = Some nxt \<and> commit nxt \<le> s \<and> s < prepare nxt
        \<longrightarrow> (b, s) \<in> set acc)"

fun isNewEpoch :: "admitterOp \<Rightarrow> bool" where
  "isNewEpoch (NewEpochOp ec) = True"
| "isNewEpoch op = False"

section \<open>The hash data of an epoch change\<close>

text \<open>
  Modelled from the spec: \<open>uint64ToBytes\<close> is defined elsewhere in the repository; integers are
  encoded as 8 bytes, big-endian.
\<close>

definition uint64ToBytes :: "uint64 \<Rightarrow> bytes" where
  "uint64ToBytes w = map (\<lambda>i. ucast (drop_bit (8 * i) w)) [7, 6, 5, 4, 3, 2, 1, 0]"

text \<open>An indexed write into a slice; Go panics when the index is out of range.\<close>

definition setAt :: "'a list \<Rightarrow> nat \<Rightarrow> 'a \<Rightarrow> error + 'a list" where
  "setAt xs i v = (if i < length xs then Inr (xs[i := v]) else Inl (Panic ''index out of range''))"

text \<open>The loop over the checkpoints, from index \<open>i\<close> on.\<close>

fun checkpointsLoop :: "bytes list \<Rightarrow> nat \<Rightarrow> nat \<Rightarrow> Checkpoint list \<Rightarrow> error + bytes list" where
  "checkpointsLoop hashData cpOffset i [] = Inr hashData"
| "checkpointsLoop hashData cpOffset i (cp # cps) =
     (case setAt hashData (cpOffset + 2 * i) (uint64ToBytes (cp_SeqNo cp)) of
        Inl e \<Rightarrow> Inl e
      | Inr h1 \<Rightarrow>
          (case setAt h1 (cpOffset + 2 * i + 1) (cp_Value cp) of
             Inl e \<Rightarrow> Inl e
           | Inr h2 \<Rightarrow> checkpointsLoop h2 cpOffset (i + 1) cps))"

text \<open>The loop over \<open>PSet\<close> and the loop over \<open>QSet\<close>, which have the same body.\<close>

fun entriesLoop :: "bytes list \<Rightarrow> nat \<Rightarrow> nat \<Rightarrow> SetEntry list \<Rightarrow> error + bytes list" where
  "entriesLoop hashData entryOffset i [] = Inr hashData"
| "entriesLoop hashData entryOffset i (entry # entries) =
     (case setAt hashData (entryOffset + 3 * i) (uint64ToBytes (se_Epoch entry)) of
        Inl e \<Rightarrow> Inl e
      | Inr h1 \<Rightarrow>
          (case setAt h1 (entryOffset + 3 * i + 1) (uint64ToBytes (se_SeqNo entry)) of
             Inl e \<Rightarrow> Inl e
           | Inr h2 \<Rightarrow>
               (case setAt h2 (entryOffset + 3 * i + 2) (se_Digest entry) of
                  Inl e \<Rightarrow> Inl e
                | Inr h3 \<Rightarrow> entriesLoop h3 entryOffset (i + 1) entries)))"

definition epochChangeHashData :: "EpochChange \<Rightarrow> error + bytes list" where
  "epochChangeHashData epochChange =
     (let hashData = replicate (1 + length (Checkpoints epochChange) * 2 +
            length (PSet epochChange) * 3 + length (QSet epochChange) * 3) []
      in case setAt hashData 0 (uint64ToBytes (NewEpoch epochChange)) of
        Inl e \<Rightarrow> Inl e
      | Inr h0 \<Rightarrow>
          (let cpOffset = 1 in
           case checkpointsLoop h0 cpOffset 0 (Checkpoints epochChange) of
             Inl e \<Rightarrow> Inl e
           | Inr h1 \<Rightarrow>
               (let pEntryOffset = cpOffset + length (Checkpoints epochChange) * 2 in
                case entriesLoop h1 pEntryOffset 0 (PSet epochChange) of
                  Inl e \<Rightarrow> Inl e
                | Inr h2 \<Rightarrow>
                    (let qEntryOffset = pEntryOffset + length (PSet epochChange) * 3 in
                     case entriesLoop h2 qEntryOffset 0 (QSet epochChange) of
                       Inl e \<Rightarrow> Inl e
                     | Inr h3 \<Rightarrow>
                         if qEntryOffset + length (QSet epochChange) * 3 \<noteq> length h3
                         then Inl (Panic ''TODO, remove me, but this is bad'')
                         else Inr h3))))"

text \<open>The layout in the words of the spec.\<close>

definition checkpointData :: "Checkpoint \<Rightarrow> bytes list" where
  "checkpointData cp = [uint64ToBytes (cp_SeqNo cp), cp_Value cp]"

definition entryData :: "SetEntry \<Rightarrow> bytes list" where
  "entryData entry =
     [uint64ToBytes (se_Epoch entry), uint64ToBytes (se_SeqNo entry), se_Digest entry]"

definition hashData_spec :: "EpochChange \<Rightarrow> bytes list" where
  "hashData_spec epochChange =
     uint64ToBytes (NewEpoch epochChange) #
     concat (map checkpointData (Checkpoints epochChange)) @
     concat (map entryData (PSet epochChange)) @
     concat (map entryData (QSet epochChange))"

section \<open>Properties of a sequence\<close>

text \<open>
  The tally under the sequence's own digest holds the local node and has reached the
  intersection quorum.
\<close>

definition prepareQuorumMet :: "sequence \<Rightarrow> bool" where
  "prepareQuorumMet s \<longleftrightarrow>
     myConfig_Id s \<in> agreementsOf (prepares s) (digest s) \<and>
     intersectionQuorum (networkConfig s) \<le> int (card (agreementsOf (prepares s) (digest s)))"

definition commitQuorumMet :: "sequence \<Rightarrow> bool" where
  "commitQuorumMet s \<longleftrightarrow>
     myConfig_Id s \<in> agreementsOf (commits s) (digest s) \<and>
     intersectionQuorum (networkConfig s) \<le> int (card (agreementsOf (commits s) (digest s)))"

definition sameTallies :: "sequence \<Rightarrow> sequence \<Rightarrow> bool" where
  "sameTallies s s' \<longleftrightarrow>
     prepares s' = prepares s \<and> commits s' = commits s \<and> digest s' = digest s \<and>
     myConfig_Id s' = myConfig_Id s \<and> networkConfig s' = networkConfig s \<and> owner s' = owner s"

definition beforePrepared :: "sequenceState \<Rightarrow> bool" where
  "beforePrepared st \<longleftrightarrow> st \<noteq> sequencePrepared \<and> st \<noteq> sequenceCommitted"

section \<open>Properties of the construction of the new epoch configuration\<close>

definition checkpointsOf :: "epochChanges \<Rightarrow> checkpointMap" where
  "checkpointsOf ecs = snd (collectCheckpoints ecs (0, []))"

text \<open>A list that enumerates the keys of a map: an order a range statement can take.\<close>

definition rangeOrder :: "('k \<times> 'v) list \<Rightarrow> 'k list \<Rightarrow> bool" where
  "rangeOrder m ks \<longleftrightarrow> distinct ks \<and> set ks = fst ` set m"

text \<open>
  A candidate checkpoint key is admissible: at least \<open>someCorrectQuorum\<close> supporters and
  at least \<open>intersectionQuorum\<close> epoch changes with a low watermark at or below its
  sequence number.
\<close>

definition admissible :: "NetworkState_Config \<Rightarrow> epochChanges \<Rightarrow> checkpointKey \<Rightarrow> bool" where
  "admissible config ecs key \<longleftrightarrow>
     someCorrectQuorum config \<le> int (length (supportersOf (checkpointsOf ecs) key)) \<and>
     intersectionQuorum config \<le> nodesWithLowerWatermark ecs (ck_SeqNo key)"

text \<open>
  The A1 count in the words of the spec: the epoch changes that have a low watermark at
  or above the sequence number, or no \<open>pSet\<close> entry there, or one of a lower epoch, or
  one of the same epoch and digest.
\<close>

definition a1Count_spec :: "epochChanges \<Rightarrow> uint64 \<Rightarrow> SetEntry \<Rightarrow> int" where
  "a1Count_spec ecs sn entry =
     int (length (filter
       (\<lambda>(i, ec). sn \<le> lowWatermark ec \<or>
          (case pSet ec sn of
             None \<Rightarrow> True
           | Some iEntry \<Rightarrow> se_Epoch iEntry < se_Epoch entry \<or>
               (se_Epoch iEntry = se_Epoch entry \<and> se_Digest iEntry = se_Digest entry))) ecs))"

text \<open>What the source counts for A1 and for A2.\<close>

definition a1Agrees :: "uint64 \<Rightarrow> SetEntry \<Rightarrow> parsedEpochChange \<Rightarrow> bool" where
  "a1Agrees sn entry ec \<longleftrightarrow>
     lowWatermark ec < sn \<and>
     (case pSet ec sn of
        None \<Rightarrow> True
      | Some iEntry \<Rightarrow> se_Epoch iEntry < se_Epoch entry \<or>
          (se_Epoch iEntry = se_Epoch entry \<and> se_Digest iEntry = se_Digest entry))"

definition a2Agrees :: "uint64 \<Rightarrow> SetEntry \<Rightarrow> parsedEpochChange \<Rightarrow> bool" where
  "a2Agrees sn entry ec \<longleftrightarrow>
     (case qSet ec sn of
        None \<Rightarrow> False
      | Some epochEntries \<Rightarrow>
          list_ex (\<lambda>(ep, dg). se_Epoch entry \<le> ep \<and> dg = se_Digest entry) epochEntries)"

section \<open>Concrete inputs\<close>

text \<open>
  A peer with id 1 that leads the only bucket, in epoch 2 with a checkpoint every 2
  sequence numbers.
\<close>

definition ex_ec :: epochConfig where
  "ex_ec = \<lparr>number = 2, buckets = [(0, 1)], checkpointInterval = 2\<rparr>"

definition ex_peer :: nodeMsgs where
  "ex_peer = newNodeMsgs 1 ex_ec []"

definition ex_preprepare :: "uint64 \<Rightarrow> Msg" where
  "ex_preprepare s = Msg_Preprepare \<lparr>pp_SeqNo = s, pp_Epoch = 2, pp_Bucket = 0, pp_Batch = []\<rparr>"

definition ex_commit :: "uint64 \<Rightarrow> Msg" where
  "ex_commit s = Msg_Commit \<lparr>c_SeqNo = s, c_Epoch = 2, c_Bucket = 0, c_Digest = []\<rparr>"

text \<open>The peer after its Preprepares 1 and 2 and its Commit 1 were admitted.\<close>

definition ex_run :: nodeMsgs where
  "ex_run = processAll ex_peer [ex_preprepare 1, ex_preprepare 2, ex_commit 1]"

text \<open>The peer after \<open>k\<close> Preprepares, numbered from 1, were admitted.\<close>

definition ex_preprepared :: "nat \<Rightarrow> nodeMsgs" where
  "ex_preprepared k = processAll ex_peer (map (\<lambda>i. ex_preprepare (of_nat i)) [1..<Suc k])"

definition ex_wrap :: nodeMsgs where
  "ex_wrap = ex_peer\<lparr>nm_epochMsgs :=
     \<lparr>em_epochConfig = ex_ec,
      em_next = [(0, \<lparr>leader = True, prepare = - 1, commit = 1\<rparr>)]\<rparr>\<rparr>"

text \<open>
  Four nodes, one tolerated fault: the intersection quorum is 3, the some-correct quorum 2.
\<close>

definition ex_nc :: NetworkState_Config where
  "ex_nc = \<lparr>Nodes = [0, 1, 2, 3], F = 1, CheckpointInterval = 1, NumberOfBuckets = 1,
     MaxEpochLength = 100\<rparr>"

definition ex_ack :: RequestAck where
  "ex_ack = \<lparr>ack_ClientId = [1], ack_ReqNo = 1, ack_Digest = [170]\<rparr>"

text \<open>
  Sequence 1 of epoch 1 at node 0, its owner: preprepared with digest \<open>0xBB\<close>, prepares of
  nodes 0 and 1 and commits of nodes 0, 1 and 2 recorded under that digest.
\<close>

definition ex_seq :: sequence where
  "ex_seq = (newSequence 0 1 1 [] ex_nc 0)
     \<lparr>state := sequencePreprepared, batch := [ex_ack], digest := Some [187],
      prepares := [[187] \<mapsto> {0, 1}], commits := [[187] \<mapsto> {0, 1, 2}]\<rparr>"

text \<open>The sequence once prepared, with the commits of nodes 0 and 1 only.\<close>

definition ex_seq_prepared :: sequence where
  "ex_seq_prepared = ex_seq\<lparr>state := sequencePrepared, prepares := [[187] \<mapsto> {0, 1, 2}],
     commits := [[187] \<mapsto> {0, 1}]\<rparr>"

text \<open>The same sequence at node 1, a backup, once its batch was allocated.\<close>

definition ex_backup :: sequence where
  "ex_backup = (newSequence 0 1 1 [] ex_nc 1)
     \<lparr>state := sequenceReady, batch := [ex_ack]\<rparr>"

text \<open>
  An epoch change for epoch \<open>e\<close> with the given checkpoints, low watermark 0 and empty
  \<open>pSet\<close> and \<open>qSet\<close>.
\<close>

definition ex_pec :: "uint64 \<Rightarrow> Checkpoint list \<Rightarrow> parsedEpochChange" where
  "ex_pec e cps = \<lparr>underlying = \<lparr>NewEpoch = e, Checkpoints = cps, PSet = [], QSet = []\<rparr>,
     lowWatermark = 0, pSet = Map.empty, qSet = Map.empty\<rparr>"

definition ex_cpA :: Checkpoint where "ex_cpA = \<lparr>cp_SeqNo = 10, cp_Value = [170]\<rparr>"
definition ex_cpB :: Checkpoint where "ex_cpB = \<lparr>cp_SeqNo = 10, cp_Value = [187]\<rparr>"
definition ex_cpC :: Checkpoint where "ex_cpC = \<lparr>cp_SeqNo = 20, cp_Value = [204]\<rparr>"

definition ex_keyA :: checkpointKey where "ex_keyA = \<lparr>ck_SeqNo = 10, ck_Value = [170]\<rparr>"
definition ex_keyB :: checkpointKey where "ex_keyB = \<lparr>ck_SeqNo = 10, ck_Value = [187]\<rparr>"
definition ex_keyC :: checkpointKey where "ex_keyC = \<lparr>ck_SeqNo = 20, ck_Value = [204]\<rparr>"

text \<open>
  Nodes 0 and 1 report the checkpoints \<open>(10, 0xAA)\<close> and \<open>(20, 0xCC)\<close>, nodes 2 and 3 the
  checkpoint \<open>(10, 0xBB)\<close>.
\<close>

definition ex_conflict :: epochChanges where
  "ex_conflict = [(0, ex_pec 7 [ex_cpA, ex_cpC]), (1, ex_pec 7 [ex_cpA, ex_cpC]),
                  (2, ex_pec 7 [ex_cpB]), (3, ex_pec 7 [ex_cpB])]"





text \<open>
  An epoch change with checkpoint \<open>(10, 0xAA)\<close> and the given low watermark that prepared
  and preprepared digest \<open>0xDD\<close> at sequence number 11 in epoch 1, and one that did neither.
\<close>

definition ex_entry :: SetEntry where
  "ex_entry = \<lparr>se_Epoch = 1, se_SeqNo = 11, se_Digest = [221]\<rparr>"

definition ex_prepared :: "uint64 \<Rightarrow> parsedEpochChange" where
  "ex_prepared lw =
     \<lparr>underlying = \<lparr>NewEpoch = 7, Checkpoints = [ex_cpA], PSet = [ex_entry], QSet = [ex_entry]\<rparr>,
      lowWatermark = lw, pSet = [11 \<mapsto> ex_entry], qSet = [11 \<mapsto> [(1, [221])]]\<rparr>"

definition ex_silent :: "uint64 \<Rightarrow> parsedEpochChange" where
  "ex_silent lw =
     \<lparr>underlying = \<lparr>NewEpoch = 7, Checkpoints = [ex_cpA], PSet = [], QSet = []\<rparr>,
      lowWatermark = lw, pSet = Map.empty, qSet = Map.empty\<rparr>"

text \<open>Two prepared epoch changes and one whose low watermark, 20, is above 11.\<close>

definition ex_ahead :: epochChanges where
  "ex_ahead = [(0, ex_prepared 5), (1, ex_prepared 5), (2, ex_silent 20)]"

text \<open>Three prepared epoch changes and a silent one, all with low watermark 5.\<close>

definition ex_quorum :: epochChanges where
  "ex_quorum = [(0, ex_prepared 5), (1, ex_prepared 5), (2, ex_prepared 5), (3, ex_silent 5)]"




text \<open>A key passes the two tests of the checkpoint selection.\<close>

definition passes :: "NetworkState_Config \<Rightarrow> epochChanges \<Rightarrow> checkpointMap \<Rightarrow> checkpointKey \<Rightarrow> bool" where
  "passes config ecs cps key \<longleftrightarrow>
     \<not> int (length (supportersOf cps key)) < someCorrectQuorum config \<and>
     \<not> nodesWithLowerWatermark ecs (ck_SeqNo key) < intersectionQuorum config"



section \<open>The admitter: classification by epoch\<close>

lemma epochSwitch_above:
  "number (em_epochConfig (nm_epochMsgs n)) < ep \<Longrightarrow> epochSwitch n ep m = (Inr past, n)"
  by (simp add: epochSwitch_def)

lemma epochSwitch_below:
  "ep < number (em_epochConfig (nm_epochMsgs n)) \<Longrightarrow> epochSwitch n ep m = (Inr future, n)"
  by (auto simp: epochSwitch_def)

text \<open>
  C2. The claim: a message whose epoch is below the current epoch number is classified
  \<open>past\<close>, one whose epoch is above it \<open>future\<close>. The source compares the other way
  round (\<open>epochSwitch_above\<close>, \<open>epochSwitch_below\<close>): for the peer \<open>ex_peer\<close>, in epoch 2, a
  Prepare of epoch 1 is classified \<open>future\<close> and a Prepare of epoch 3 is classified \<open>past\<close>.
\<close>

theorem process_epoch_comparison_inverted:
  "fst (nodeMsgs_process ex_peer
          (Msg_Prepare \<lparr>p_SeqNo = 1, p_Epoch = 1, p_Bucket = 0, p_Digest = []\<rparr>)) = Inr future \<and>
   fst (nodeMsgs_process ex_peer
          (Msg_Prepare \<lparr>p_SeqNo = 1, p_Epoch = 3, p_Bucket = 0, p_Digest = []\<rparr>)) = Inr past"
  by (simp add: ex_peer_def ex_ec_def newNodeMsgs_def newEpochMsgs_def epochSwitch_def)

section \<open>The admitter: unknown message types\<close>

text \<open>
  C8. The claim: on a message of no recognised variant, \<open>process\<close> records the oddity and
  returns normally. The source records the oddity and then panics, for every admitter.
\<close>

theorem process_unknown_message_panics:
  "nodeMsgs_process n Msg_Unknown =
     (Inl (Panic ''unknown message type''),
      n\<lparr>nm_oddities := nm_oddities n @ [invalidMessage (nm_id n) Msg_Unknown]\<rparr>)"
  by simp

section \<open>The admitter: release of checkpoints\<close>

lemma ex_run_eq:
  "ex_run = \<lparr>nm_id = 1, nm_oddities = [], nm_buffer = [],
       nm_epochMsgs =
         \<lparr>em_epochConfig = \<lparr>number = 2, buckets = [(0, 1)], checkpointInterval = 2\<rparr>,
            em_next = [(0, \<lparr>leader = True, prepare = 3, commit = 2\<rparr>)]\<rparr>,
       nextCheckpoint = 2\<rparr>"
  by (simp add: ex_run_def ex_peer_def ex_ec_def ex_preprepare_def ex_commit_def newNodeMsgs_def
      newEpochMsgs_def epochSwitch_def processPreprepare_def processCommit_def)




lemma processPreprepare_not_current:
  "processPreprepare e m = (a, e') \<Longrightarrow> a \<noteq> current \<Longrightarrow> e' = e"
  by (auto simp: processPreprepare_def split: option.splits if_splits)

lemma processPrepare_not_current:
  "processPrepare e m = (a, e') \<Longrightarrow> a \<noteq> current \<Longrightarrow> e' = e"
  by (auto simp: processPrepare_def split: option.splits if_splits)

lemma processCommit_not_current:
  "processCommit e m = (a, e') \<Longrightarrow> a \<noteq> current \<Longrightarrow> e' = e"
  by (auto simp: processCommit_def split: option.splits if_splits)

text \<open>Only a message classified \<open>current\<close> changes the admitter.\<close>

lemma process_not_current:
  "nodeMsgs_process n m = (Inr a, n') \<Longrightarrow> a \<noteq> current \<Longrightarrow> n' = n"
  by (cases m) (auto simp: epochSwitch_def processCheckpoint_def
      split: if_splits prod.splits
      dest: processPreprepare_not_current processPrepare_not_current processCommit_not_current)

text \<open>
  A message that \<open>next\<close> releases was classified \<open>current\<close> by an admitter with the cursors
  \<open>next\<close> started from: the messages visited before it changed the buffer and the
  oddities only.
\<close>

lemma next_loop_released:
  "next_loop n ord = (Inr (Some msg), n') \<Longrightarrow>
     \<exists>n0. nm_epochMsgs n0 = nm_epochMsgs n \<and> nextCheckpoint n0 = nextCheckpoint n \<and>
       fst (nodeMsgs_process n0 msg) = Inr current"
proof (induction ord arbitrary: n)
  case Nil
  then show ?case by simp
next
  case (Cons m ord)
  obtain r n1 where p: "nodeMsgs_process n m = (r, n1)" by (cases "nodeMsgs_process n m")
  show ?case
  proof (cases r)
    case (Inl e)
    with Cons.prems p show ?thesis by simp
  next
    case (Inr a)
    show ?thesis
    proof (cases "a = current")
      case True
      with Cons.prems p Inr have "msg = m" by simp
      with p Inr True show ?thesis by (intro exI[of _ n]) simp
    next
      case False
      with p Inr have eq: "n1 = n" by (auto dest: process_not_current)
      from False Cons.prems p Inr eq
      consider "next_loop n ord = (Inr (Some msg), n')"
        | "next_loop (n\<lparr>nm_oddities := nm_oddities n @ [alreadyProcessed (nm_id n) m],
                        nm_buffer := remove1 m (nm_buffer n)\<rparr>) ord = (Inr (Some msg), n')"
        by (cases a) auto
      then show ?thesis
      proof cases
        case 1
        from Cons.IH[OF 1] show ?thesis .
      next
        case 2
        from Cons.IH[OF 2] show ?thesis by simp
      qed
    qed
  qed
qed



section \<open>The admitter: order of the cursors of a bucket\<close>

lemma set_setEntry: "set (setEntry k v m) \<subseteq> insert (k, v) (set m)"
  by (induction m) (auto split: if_splits)

lemma map_of_setEntry: "map_of (setEntry k v m) = (map_of m)(k \<mapsto> v)"
  by (induction m) (auto simp: fun_eq_iff)

lemma emBounded_mono: "emBounded k e \<Longrightarrow> emBounded (Suc k) e"
  by (fastforce simp: emBounded_def)

lemma emBounded_setEntry:
  assumes "emBounded (Suc k) e" "commit v \<le> prepare v" "unat (prepare v) \<le> Suc (Suc k)"
  shows "emBounded (Suc k) (e\<lparr>em_next := setEntry b v (em_next e)\<rparr>)"
  using assms set_setEntry[of b v "em_next e"] by (fastforce simp: emBounded_def)

lemma word_succ_bound:
  fixes s :: "64 word"
  assumes "unat s \<le> Suc k" "Suc k < 18446744073709551615"
  shows "unat (s + 1) = Suc (unat s)" "c \<le> s \<Longrightarrow> c \<le> s + 1"
proof -
  from assms have "unat s + unat (1 :: 64 word) < 2 ^ LENGTH(64)"
    by simp
  then have "unat (s + 1) = unat s + unat (1 :: 64 word)"
    by (simp only: unat_add_lem)
  then show u: "unat (s + 1) = Suc (unat s)"
    by simp
  assume "c \<le> s"
  then show "c \<le> s + 1"
    using u by (simp add: word_le_nat_alt)
qed

lemma processPreprepare_bounded:
  assumes "emBounded k e" "Suc k < 18446744073709551615"
  shows "emBounded (Suc k) (snd (processPreprepare e m))"
proof (cases "map_of (em_next e) (pp_Bucket m)")
  case None
  with assms(1) show ?thesis by (simp add: processPreprepare_def emBounded_mono)
next
  case (Some nxt)
  then have "(pp_Bucket m, nxt) \<in> set (em_next e)" by (rule map_of_SomeD)
  with assms(1) have b: "commit nxt \<le> prepare nxt" "unat (prepare nxt) \<le> Suc k"
    by (auto simp: emBounded_def)
  show ?thesis
  proof (cases "leader nxt \<and> prepare nxt = pp_SeqNo m")
    case True
    with b word_succ_bound[OF b(2) assms(2)]
    have "emBounded (Suc k) (e\<lparr>em_next := setEntry (pp_Bucket m) (nxt\<lparr>prepare := pp_SeqNo m + 1\<rparr>) (em_next e)\<rparr>)"
      by (intro emBounded_setEntry emBounded_mono assms(1)) auto
    with True Some show ?thesis by (simp add: processPreprepare_def)
  next
    case False
    with Some assms(1) show ?thesis by (auto simp: processPreprepare_def emBounded_mono)
  qed
qed

lemma processPrepare_bounded:
  assumes "emBounded k e" "Suc k < 18446744073709551615"
  shows "emBounded (Suc k) (snd (processPrepare e m))"
proof (cases "map_of (em_next e) (p_Bucket m)")
  case None
  with assms(1) show ?thesis by (simp add: processPrepare_def emBounded_mono)
next
  case (Some nxt)
  then have "(p_Bucket m, nxt) \<in> set (em_next e)" by (rule map_of_SomeD)
  with assms(1) have b: "commit nxt \<le> prepare nxt" "unat (prepare nxt) \<le> Suc k"
    by (auto simp: emBounded_def)
  show ?thesis
  proof (cases "\<not> leader nxt \<and> prepare nxt = p_SeqNo m")
    case True
    with b word_succ_bound[OF b(2) assms(2)]
    have "emBounded (Suc k) (e\<lparr>em_next := setEntry (p_Bucket m) (nxt\<lparr>prepare := p_SeqNo m + 1\<rparr>) (em_next e)\<rparr>)"
      by (intro emBounded_setEntry emBounded_mono assms(1)) auto
    with True Some show ?thesis by (simp add: processPrepare_def)
  next
    case False
    with Some assms(1) show ?thesis by (auto simp: processPrepare_def emBounded_mono)
  qed
qed

lemma processCommit_bounded:
  assumes "emBounded k e"
  shows "emBounded (Suc k) (snd (processCommit e m))"
proof (cases "map_of (em_next e) (c_Bucket m)")
  case None
  with assms(1) show ?thesis by (simp add: processCommit_def emBounded_mono)
next
  case (Some nxt)
  then have "(c_Bucket m, nxt) \<in> set (em_next e)" by (rule map_of_SomeD)
  with assms(1) have b: "commit nxt \<le> prepare nxt" "unat (prepare nxt) \<le> Suc k"
    by (auto simp: emBounded_def)
  show ?thesis
  proof (cases "commit nxt = c_SeqNo m \<and> prepare nxt > commit nxt")
    case True
    then have lt: "c_SeqNo m < prepare nxt" by auto
    then have "c_SeqNo m + 1 \<le> prepare nxt" by (rule inc_le)
    with b
    have "emBounded (Suc k) (e\<lparr>em_next := setEntry (c_Bucket m) (nxt\<lparr>commit := c_SeqNo m + 1\<rparr>) (em_next e)\<rparr>)"
      by (intro emBounded_setEntry emBounded_mono assms(1)) auto
    with True Some lt show ?thesis by (simp add: processCommit_def)
  next
    case False
    with Some assms(1) show ?thesis by (auto simp: processCommit_def emBounded_mono)
  qed
qed

lemma epochMsgs_process_bounded:
  assumes "emBounded k e" "Suc k < 18446744073709551615"
  shows "emBounded (Suc k) (snd (epochMsgs_process e m))"
proof -
  have pp: "\<And>x a e'. processPreprepare e x = (a, e') \<Longrightarrow> emBounded (Suc k) e'"
    using processPreprepare_bounded[OF assms] by (metis snd_conv)
  have p: "\<And>x a e'. processPrepare e x = (a, e') \<Longrightarrow> emBounded (Suc k) e'"
    using processPrepare_bounded[OF assms] by (metis snd_conv)
  have c: "\<And>x a e'. processCommit e x = (a, e') \<Longrightarrow> emBounded (Suc k) e'"
    using processCommit_bounded[OF assms(1)] by (metis snd_conv)
  show ?thesis
    using assms(1) by (cases m) (auto simp: emBounded_mono split: prod.splits dest: pp p c)
qed

lemma process_bounded:
  assumes "emBounded k (nm_epochMsgs n)" "Suc k < 18446744073709551615"
  shows "emBounded (Suc k) (nm_epochMsgs (snd (nodeMsgs_process n m)))"
  using assms epochMsgs_process_bounded[OF assms, of m]
  by (cases m) (auto simp: emBounded_mono epochSwitch_def processCheckpoint_def split: prod.splits)

lemma next_loop_bounded:
  assumes "emBounded k (nm_epochMsgs n)" "Suc k < 18446744073709551615"
  shows "emBounded (Suc k) (nm_epochMsgs (snd (next_loop n ord)))"
  using assms(1)
proof (induction ord arbitrary: n)
  case Nil
  then show ?case by (simp add: emBounded_mono)
next
  case (Cons m ord)
  obtain r n1 where p: "nodeMsgs_process n m = (r, n1)" by (cases "nodeMsgs_process n m")
  from process_bounded[OF Cons.prems assms(2), of m] p
  have b1: "emBounded (Suc k) (nm_epochMsgs n1)" by simp
  show ?case
  proof (cases r)
    case (Inl e)
    with p b1 show ?thesis by simp
  next
    case (Inr a)
    show ?thesis
    proof (cases "a = current")
      case True
      with p Inr b1 show ?thesis by simp
    next
      case False
      with p Inr have eq: "n1 = n" by (auto dest: process_not_current)
      have "emBounded (Suc k) (nm_epochMsgs (snd (next_loop n ord)))"
        by (rule Cons.IH[OF Cons.prems])
      moreover have "emBounded (Suc k) (nm_epochMsgs (snd (next_loop
          (n\<lparr>nm_oddities := nm_oddities n @ [alreadyProcessed (nm_id n) m],
             nm_buffer := remove1 m (nm_buffer n)\<rparr>) ord)))"
        by (rule Cons.IH) (simp add: Cons.prems)
      ultimately show ?thesis using False p Inr eq
        by (cases a) auto
    qed
  qed
qed

lemma newEpochMsgs_loop_ones:
  assumes "\<forall>(b, nxt) \<in> set acc. prepare nxt = 1 \<and> commit nxt = 1"
  shows "\<forall>(b, nxt) \<in> set (newEpochMsgs_loop nodeID bs acc). prepare nxt = 1 \<and> commit nxt = 1"
  using assms
proof (induction nodeID bs acc rule: newEpochMsgs_loop.induct)
  case (1 nodeID nxt)
  then show ?case by simp
next
  case (2 nodeID bucketID leaderID bs nxt)
  show ?case
    unfolding newEpochMsgs_loop.simps
    by (rule 2) (use 2(2) set_setEntry[of bucketID _ nxt] in fastforce)
qed

lemma newEpochMsgs_bounded: "emBounded k (newEpochMsgs nodeID ec)"
  using newEpochMsgs_loop_ones[of "[]" nodeID "buckets ec"]
  by (fastforce simp: emBounded_def newEpochMsgs_def)

lemma applyOp_bounded:
  assumes "emBounded k (nm_epochMsgs n)" "Suc k < 18446744073709551615"
  shows "emBounded (Suc k) (nm_epochMsgs (applyOp n op))"
  using assms
  by (cases op) (auto simp: ingest_def newEpoch_def nodeMsgs_next_def emBounded_mono
      newEpochMsgs_bounded process_bounded next_loop_bounded)

lemma applyOps_bounded:
  assumes "emBounded k (nm_epochMsgs n)" "k + length ops < 18446744073709551615"
  shows "emBounded (k + length ops) (nm_epochMsgs (applyOps n ops))"
  using assms
proof (induction ops arbitrary: n k)
  case Nil
  then show ?case by simp
next
  case (Cons op ops)
  have "emBounded (Suc k) (nm_epochMsgs (applyOp n op))"
    by (rule applyOp_bounded) (use Cons.prems in auto)
  from Cons.IH[OF this] Cons.prems(2) show ?case by simp
qed


lemma processAll_append: "processAll n (xs @ ys) = processAll (processAll n xs) ys"
  by (induction xs arbitrary: n) auto

lemma ex_preprepared_eq:
  "ex_preprepared k = ex_peer\<lparr>nm_epochMsgs :=
     \<lparr>em_epochConfig = ex_ec,
      em_next = [(0, \<lparr>leader = True, prepare = of_nat (Suc k), commit = 1\<rparr>)]\<rparr>\<rparr>"
proof (induction k)
  case 0
  show ?case
    by (simp add: ex_preprepared_def ex_peer_def ex_ec_def newNodeMsgs_def newEpochMsgs_def)
next
  case (Suc k)
  have "ex_preprepared (Suc k) =
      snd (nodeMsgs_process (ex_preprepared k) (ex_preprepare (of_nat (Suc k))))"
    by (simp add: ex_preprepared_def processAll_append)
  then show ?case
    unfolding Suc
    by (simp add: ex_preprepare_def ex_peer_def ex_ec_def newNodeMsgs_def epochSwitch_def
        processPreprepare_def add.commute)
qed

lemma ex_wrap_reached: "ex_wrap = ex_preprepared 18446744073709551614"
  unfolding ex_preprepared_eq by (simp add: ex_wrap_def)

text \<open>
  C10, as stated, fails where the prepare cursor wraps round. \<open>ex_wrap\<close> is the admitter
  after the peer's Preprepares 1 to \<open>2^64 - 2\<close> were admitted: the cursors of its bucket are
  ordered, the prepare cursor is \<open>2^64 - 1\<close>. The next Preprepare is admitted as \<open>current\<close> and
  \<open>SeqNo + 1\<close> wraps to 0, below the commit cursor.
\<close>

theorem prepare_cursor_wraps:
  "ex_wrap = ex_preprepared 18446744073709551614 \<and>
   cursorsOrdered ex_wrap \<and>
   fst (nodeMsgs_process ex_wrap (ex_preprepare (- 1))) = Inr current \<and>
   \<not> cursorsOrdered (snd (nodeMsgs_process ex_wrap (ex_preprepare (- 1))))"
proof -
  have "cursorsOrdered ex_wrap \<and>
   fst (nodeMsgs_process ex_wrap (ex_preprepare (- 1))) = Inr current \<and>
   \<not> cursorsOrdered (snd (nodeMsgs_process ex_wrap (ex_preprepare (- 1))))"
    by (simp add: cursorsOrdered_def ex_wrap_def ex_peer_def newNodeMsgs_def ex_ec_def
        ex_preprepare_def epochSwitch_def processPreprepare_def)
  with ex_wrap_reached show ?thesis by blast
qed

lemma process_cursorsOrdered:
  assumes "cursorsOrdered n"
    and "\<forall>(b, nxt) \<in> set (em_next (nm_epochMsgs n)). prepare nxt \<noteq> - 1"
  shows "cursorsOrdered (snd (nodeMsgs_process n m))"
proof -
  have "unat (prepare nxt) \<le> Suc 18446744073709551613"
    if "(b, nxt) \<in> set (em_next (nm_epochMsgs n))" for b nxt
  proof -
    from that assms(2) have "prepare nxt \<noteq> - 1" by auto
    then have "unat (prepare nxt) \<noteq> unat (- 1 :: 64 word)"
      by (simp only: word_unat_eq_iff not_False_eq_True)
    moreover have "unat (prepare nxt) < 2 ^ 64"
      using unsigned_less[of "prepare nxt"] by simp
    moreover have "unat (- 1 :: 64 word) = 18446744073709551615"
      by (simp add: unsigned_minus_1_eq_mask mask_eq_exp_minus_1)
    ultimately show ?thesis by simp
  qed
  with assms(1) have "emBounded 18446744073709551613 (nm_epochMsgs n)"
    by (auto simp: emBounded_def cursorsOrdered_def list_all_iff)
  then have "emBounded (Suc 18446744073709551613) (nm_epochMsgs (snd (nodeMsgs_process n m)))"
    by (rule process_bounded) simp
  then show ?thesis
    by (auto simp: emBounded_def cursorsOrdered_def list_all_iff)
qed

lemma processCommit_current:
  assumes "fst (processCommit e msg) = current"
  shows "\<exists>nxt. map_of (em_next e) (c_Bucket msg) = Some nxt \<and>
           commit nxt = c_SeqNo msg \<and> c_SeqNo msg < prepare nxt"
  using assms by (auto simp: processCommit_def split: option.splits if_splits)

text \<open>
  What a run has accepted. Accepting a Preprepare or a Prepare at the prepare cursor adds
  its sequence number to the record and moves the cursor by one, also when the cursor wraps
  round to 0; accepting a Commit moves the commit cursor by one, below the prepare cursor.
\<close>

lemma word_less_succ:
  fixes s p :: "64 word"
  assumes "s < p + 1"
  shows "s \<le> p"
  using assms by unat_arith

lemma word_succ_le_ge:
  fixes s p x :: "64 word"
  assumes "s < p" "s + 1 \<le> x"
  shows "s \<le> x"
  using assms by unat_arith

lemma preparesAccepted_mono:
  "preparesAccepted e acc \<Longrightarrow> set acc \<subseteq> set acc' \<Longrightarrow> preparesAccepted e acc'"
  unfolding preparesAccepted_def by blast

lemma processPreprepare_accepted:
  assumes "preparesAccepted e acc"
  shows "preparesAccepted (snd (processPreprepare e m))
           (if fst (processPreprepare e m) = current then (pp_Bucket m, pp_SeqNo m) # acc else acc)"
proof (cases "fst (processPreprepare e m) = current")
  case False
  then have "snd (processPreprepare e m) = e"
    using processPreprepare_not_current[of e m "fst (processPreprepare e m)" "snd (processPreprepare e m)"]
    by simp
  with False assms show ?thesis by simp
next
  case True
  then obtain nxt where nxt: "map_of (em_next e) (pp_Bucket m) = Some nxt" "prepare nxt = pp_SeqNo m"
    and res: "snd (processPreprepare e m) =
      e\<lparr>em_next := setEntry (pp_Bucket m) (nxt\<lparr>prepare := pp_SeqNo m + 1\<rparr>) (em_next e)\<rparr>"
    by (auto simp: processPreprepare_def split: option.splits if_splits)
  have "(b, s) \<in> set ((pp_Bucket m, pp_SeqNo m) # acc)"
    if h: "map_of (em_next (snd (processPreprepare e m))) b = Some n'" "commit n' \<le> s" "s < prepare n'"
    for b n' s
  proof (cases "b = pp_Bucket m")
    case False
    with h res have "map_of (em_next e) b = Some n'" by (simp add: map_of_setEntry)
    with assms h show ?thesis by (auto simp: preparesAccepted_def)
  next
    case b: True
    with h res have n': "n' = nxt\<lparr>prepare := pp_SeqNo m + 1\<rparr>" by (simp add: map_of_setEntry)
    with h have "commit nxt \<le> s" "s \<le> pp_SeqNo m" by (auto intro: word_less_succ)
    then consider "s = pp_SeqNo m" | "commit nxt \<le> s" "s < prepare nxt"
      using nxt(2) by (auto simp: word_le_less_eq)
    then show ?thesis
    proof cases
      case 1
      with b show ?thesis by simp
    next
      case 2
      with assms nxt(1) b show ?thesis by (auto simp: preparesAccepted_def)
    qed
  qed
  with True show ?thesis by (auto simp: preparesAccepted_def)
qed

lemma processPrepare_accepted:
  assumes "preparesAccepted e acc"
  shows "preparesAccepted (snd (processPrepare e m))
           (if fst (processPrepare e m) = current then (p_Bucket m, p_SeqNo m) # acc else acc)"
proof (cases "fst (processPrepare e m) = current")
  case False
  then have "snd (processPrepare e m) = e"
    using processPrepare_not_current[of e m "fst (processPrepare e m)" "snd (processPrepare e m)"]
    by simp
  with False assms show ?thesis by simp
next
  case True
  then obtain nxt where nxt: "map_of (em_next e) (p_Bucket m) = Some nxt" "prepare nxt = p_SeqNo m"
    and res: "snd (processPrepare e m) =
      e\<lparr>em_next := setEntry (p_Bucket m) (nxt\<lparr>prepare := p_SeqNo m + 1\<rparr>) (em_next e)\<rparr>"
    by (auto simp: processPrepare_def split: option.splits if_splits)
  have "(b, s) \<in> set ((p_Bucket m, p_SeqNo m) # acc)"
    if h: "map_of (em_next (snd (processPrepare e m))) b = Some n'" "commit n' \<le> s" "s < prepare n'"
    for b n' s
  proof (cases "b = p_Bucket m")
    case False
    with h res have "map_of (em_next e) b = Some n'" by (simp add: map_of_setEntry)
    with assms h show ?thesis by (auto simp: preparesAccepted_def)
  next
    case b: True
    with h res have n': "n' = nxt\<lparr>prepare := p_SeqNo m + 1\<rparr>" by (simp add: map_of_setEntry)
    with h have "commit nxt \<le> s" "s \<le> p_SeqNo m" by (auto intro: word_less_succ)
    then consider "s = p_SeqNo m" | "commit nxt \<le> s" "s < prepare nxt"
      using nxt(2) by (auto simp: word_le_less_eq)
    then show ?thesis
    proof cases
      case 1
      with b show ?thesis by simp
    next
      case 2
      with assms nxt(1) b show ?thesis by (auto simp: preparesAccepted_def)
    qed
  qed
  with True show ?thesis by (auto simp: preparesAccepted_def)
qed

lemma processCommit_accepted:
  assumes "preparesAccepted e acc"
  shows "preparesAccepted (snd (processCommit e m)) acc"
proof (cases "fst (processCommit e m) = current")
  case False
  then have "snd (processCommit e m) = e"
    using processCommit_not_current[of e m "fst (processCommit e m)" "snd (processCommit e m)"]
    by simp
  with assms show ?thesis by simp
next
  case True
  then obtain nxt where nxt: "map_of (em_next e) (c_Bucket m) = Some nxt" "commit nxt = c_SeqNo m"
      "c_SeqNo m < prepare nxt"
    and res: "snd (processCommit e m) =
      e\<lparr>em_next := setEntry (c_Bucket m) (nxt\<lparr>commit := c_SeqNo m + 1\<rparr>) (em_next e)\<rparr>"
    by (auto simp: processCommit_def split: option.splits if_splits)
  have "(b, s) \<in> set acc"
    if h: "map_of (em_next (snd (processCommit e m))) b = Some n'" "commit n' \<le> s" "s < prepare n'"
    for b n' s
  proof (cases "b = c_Bucket m")
    case False
    with h res have "map_of (em_next e) b = Some n'" by (simp add: map_of_setEntry)
    with assms h show ?thesis by (auto simp: preparesAccepted_def)
  next
    case b: True
    with h res have n': "n' = nxt\<lparr>commit := c_SeqNo m + 1\<rparr>" by (simp add: map_of_setEntry)
    with h have "c_SeqNo m + 1 \<le> s" "s < prepare nxt" by auto
    with nxt(3) have "commit nxt \<le> s" "s < prepare nxt"
      using word_succ_le_ge[of "c_SeqNo m" "prepare nxt" s] nxt(2) by auto
    with assms nxt(1) b show ?thesis by (auto simp: preparesAccepted_def)
  qed
  then show ?thesis by (auto simp: preparesAccepted_def)
qed

lemma process_accepted:
  assumes "preparesAccepted (nm_epochMsgs n) acc"
  shows "preparesAccepted (nm_epochMsgs (snd (nodeMsgs_process n m)))
           (notePrepare acc (if fst (nodeMsgs_process n m) = Inr current then Some m else None))"
proof (cases m)
  case (Msg_Preprepare p)
  show ?thesis
    using assms processPreprepare_accepted[OF assms, of p]
    by (auto simp: Msg_Preprepare epochSwitch_def split: prod.splits if_splits)
next
  case (Msg_Prepare p)
  show ?thesis
    using assms processPrepare_accepted[OF assms, of p]
    by (auto simp: Msg_Prepare epochSwitch_def split: prod.splits if_splits)
next
  case (Msg_Commit c)
  show ?thesis
    using assms processCommit_accepted[OF assms, of c]
    by (auto simp: Msg_Commit epochSwitch_def split: prod.splits if_splits)
next
  case (Msg_Checkpoint c)
  show ?thesis
    using assms by (auto simp: Msg_Checkpoint processCheckpoint_def)
qed (use assms in \<open>auto simp: epochSwitch_def\<close>)

lemma next_loop_accepted:
  assumes "preparesAccepted (nm_epochMsgs n) acc"
  shows "preparesAccepted (nm_epochMsgs (snd (next_loop n ord)))
           (notePrepare acc (case fst (next_loop n ord) of Inr (Some m) \<Rightarrow> Some m | _ \<Rightarrow> None))"
  using assms
proof (induction ord arbitrary: n)
  case Nil
  then show ?case by simp
next
  case (Cons m ord)
  obtain r n1 where p: "nodeMsgs_process n m = (r, n1)" by (cases "nodeMsgs_process n m")
  note step = process_accepted[OF Cons.prems, of m]
  show ?case
  proof (cases r)
    case (Inl e)
    with p step show ?thesis by simp
  next
    case (Inr a)
    show ?thesis
    proof (cases "a = current")
      case True
      with p Inr step show ?thesis by simp
    next
      case False
      with p Inr have eq: "n1 = n" by (auto dest: process_not_current)
      let ?n' = "n\<lparr>nm_oddities := nm_oddities n @ [alreadyProcessed (nm_id n) m],
             nm_buffer := remove1 m (nm_buffer n)\<rparr>"
      have a: "preparesAccepted (nm_epochMsgs (snd (next_loop n ord)))
           (notePrepare acc (case fst (next_loop n ord) of Inr (Some m) \<Rightarrow> Some m | _ \<Rightarrow> None))"
        by (rule Cons.IH[OF Cons.prems])
      have b: "preparesAccepted (nm_epochMsgs (snd (next_loop ?n' ord)))
           (notePrepare acc (case fst (next_loop ?n' ord) of Inr (Some m) \<Rightarrow> Some m | _ \<Rightarrow> None))"
        by (rule Cons.IH) (simp add: Cons.prems)
      from a b False p Inr eq show ?thesis
        by (cases a) auto
    qed
  qed
qed

lemma newEpochMsgs_accepted: "preparesAccepted (newEpochMsgs nodeID ec) acc"
proof -
  have "prepare nxt = 1 \<and> commit nxt = 1"
    if "map_of (em_next (newEpochMsgs nodeID ec)) b = Some nxt" for b nxt
    using newEpochMsgs_loop_ones[of "[]" nodeID "buckets ec"] map_of_SomeD[OF that]
    by (fastforce simp: newEpochMsgs_def)
  then show ?thesis
    unfolding preparesAccepted_def by (metis leD)
qed

lemma applyOp_accepted:
  assumes "preparesAccepted (nm_epochMsgs n) acc"
  shows "preparesAccepted (nm_epochMsgs (applyOp n op)) (noteAccepted acc n op)"
proof (cases op)
  case (IngestOp m)
  with assms show ?thesis by (simp add: ingest_def)
next
  case (ProcessOp m)
  with process_accepted[OF assms, of m] show ?thesis by simp
next
  case (NextOp ord)
  with next_loop_accepted[OF assms, of ord] show ?thesis by (simp add: nodeMsgs_next_def)
next
  case (NewEpochOp ec)
  then show ?thesis by (simp add: newEpoch_def newEpochMsgs_accepted)
qed

lemma applyOps_accepted:
  assumes "preparesAccepted (nm_epochMsgs n) acc"
  shows "preparesAccepted (nm_epochMsgs (applyOps n ops)) (acceptedPrepares n ops acc)"
  using assms
proof (induction ops arbitrary: n acc)
  case Nil
  then show ?case by simp
next
  case (Cons op ops)
  show ?case
    unfolding applyOps.simps acceptedPrepares.simps
    by (rule Cons.IH) (rule applyOp_accepted[OF Cons.prems])
qed

lemma commit_current_prepared:
  assumes "preparesAccepted (nm_epochMsgs n) acc"
    and "fst (nodeMsgs_process n (Msg_Commit c)) = Inr current"
  shows "(c_Bucket c, c_SeqNo c) \<in> set acc"
proof -
  from assms(2) have "fst (processCommit (nm_epochMsgs n) c) = current"
    by (auto simp: epochSwitch_def split: if_splits prod.splits)
  then obtain nxt where "map_of (em_next (nm_epochMsgs n)) (c_Bucket c) = Some nxt"
      "commit nxt = c_SeqNo c" "c_SeqNo c < prepare nxt"
    using processCommit_current by blast
  with assms(1) show ?thesis
    unfolding preparesAccepted_def by (metis order_refl)
qed

lemma run_commit_current:
  assumes "fst (nodeMsgs_process (applyOps (newNodeMsgs nodeID ec ods) ops) (Msg_Commit c)) = Inr current"
  shows "(c_Bucket c, c_SeqNo c) \<in> set (acceptedPrepares (newNodeMsgs nodeID ec ods) ops [])"
proof -
  have "preparesAccepted (nm_epochMsgs (newNodeMsgs nodeID ec ods)) []"
    by (simp add: newNodeMsgs_def newEpochMsgs_accepted)
  from commit_current_prepared[OF applyOps_accepted[OF this] assms] show ?thesis .
qed

lemma process_current_em:
  assumes "nm_epochMsgs n0 = nm_epochMsgs n"
  shows "fst (nodeMsgs_process n0 (Msg_Commit c)) = fst (nodeMsgs_process n (Msg_Commit c))"
  using assms by (simp add: epochSwitch_def split: prod.splits)

lemma run_commit_released:
  assumes "fst (nodeMsgs_next (applyOps (newNodeMsgs nodeID ec ods) ops) ord) = Inr (Some (Msg_Commit c))"
  shows "(c_Bucket c, c_SeqNo c) \<in> set (acceptedPrepares (newNodeMsgs nodeID ec ods) ops [])"
proof -
  let ?n = "applyOps (newNodeMsgs nodeID ec ods) ops"
  from assms obtain n' where "next_loop ?n ord = (Inr (Some (Msg_Commit c)), n')"
    by (cases "next_loop ?n ord") (simp add: nodeMsgs_next_def)
  then obtain n0 where "nm_epochMsgs n0 = nm_epochMsgs ?n"
      "fst (nodeMsgs_process n0 (Msg_Commit c)) = Inr current"
    by (auto dest: next_loop_released)
  then have "fst (nodeMsgs_process ?n (Msg_Commit c)) = Inr current"
    using process_current_em[of n0 ?n c] by simp
  then show ?thesis by (rule run_commit_current)
qed

text \<open>
  The record means what it says: a key in it is that of a Preprepare or Prepare that a
  call of the run accepted, with no \<open>newEpoch\<close> after that call.
\<close>

lemma applyOps_take_Suc:
  "applyOps n (take (Suc i) (op # ops)) = applyOps (applyOp n op) (take i ops)"
  by simp

lemma acceptedPrepares_meaning:
  assumes "k \<in> set (acceptedPrepares n ops acc)"
  shows "(k \<in> set acc \<and> (\<forall>j < length ops. \<not> isNewEpoch (ops ! j))) \<or>
         (\<exists>i < length ops. \<exists>m. accepted (applyOps n (take i ops)) (ops ! i) = Some m \<and>
            prepareKey m = Some k \<and> (\<forall>j < length ops. i < j \<longrightarrow> \<not> isNewEpoch (ops ! j)))"
  using assms
proof (induction ops arbitrary: n acc)
  case Nil
  then show ?case by simp
next
  case (Cons op ops)
  from Cons.prems have "k \<in> set (acceptedPrepares (applyOp n op) ops (noteAccepted acc n op))"
    by simp
  from Cons.IH[OF this]
  consider (old) "k \<in> set (noteAccepted acc n op)" "\<forall>j < length ops. \<not> isNewEpoch (ops ! j)"
    | (later) i m where "i < length ops"
        "accepted (applyOps (applyOp n op) (take i ops)) (ops ! i) = Some m" "prepareKey m = Some k"
        "\<forall>j < length ops. i < j \<longrightarrow> \<not> isNewEpoch (ops ! j)"
    by blast
  then show ?case
  proof cases
    case later
    have "Suc i < length (op # ops)" using later(1) by simp
    moreover have "accepted (applyOps n (take (Suc i) (op # ops))) ((op # ops) ! Suc i) = Some m"
      using later(2) by simp
    moreover have "\<forall>j < length (op # ops). Suc i < j \<longrightarrow> \<not> isNewEpoch ((op # ops) ! j)"
    proof (intro allI impI)
      fix j assume "j < length (op # ops)" "Suc i < j"
      then obtain j' where "j = Suc j'" "j' < length ops" "i < j'" by (cases j) auto
      with later(4) show "\<not> isNewEpoch ((op # ops) ! j)" by simp
    qed
    ultimately show ?thesis using later(3) by blast
  next
    case old
    from old(1) have ne: "\<not> isNewEpoch op" by (cases op) auto
    have tail: "\<forall>j < length (op # ops). 0 < j \<longrightarrow> \<not> isNewEpoch ((op # ops) ! j)"
    proof (intro allI impI)
      fix j assume "j < length (op # ops)" "0 < j"
      then obtain j' where "j = Suc j'" "j' < length ops" by (cases j) auto
      with old(2) show "\<not> isNewEpoch ((op # ops) ! j)" by simp
    qed
    from ne old(1) have "k \<in> set (notePrepare acc (accepted n op))" by (cases op) auto
    then consider "k \<in> set acc" | m where "accepted n op = Some m" "prepareKey m = Some k"
      by (cases "accepted n op") (auto split: option.splits)
    then show ?thesis
    proof cases
      case 1
      have "\<forall>j < length (op # ops). \<not> isNewEpoch ((op # ops) ! j)"
      proof (intro allI impI)
        fix j assume "j < length (op # ops)"
        then show "\<not> isNewEpoch ((op # ops) ! j)" using ne tail by (cases j) auto
      qed
      with 1 show ?thesis by blast
    next
      case 2
      have "accepted (applyOps n (take 0 (op # ops))) ((op # ops) ! 0) = Some m"
        using 2(1) by simp
      with 2(2) tail show ?thesis by (intro disjI2 exI[of _ 0] exI[of _ m]) auto
    qed
  qed
qed

text \<open>
  C10, amended. The cursors of every bucket are ordered, \<open>commit \<le> prepare\<close>, at
  initialisation and after every run of fewer than \<open>2^64 - 1\<close> calls; \<open>process\<close> keeps
  them ordered whenever no prepare cursor is \<open>2^64 - 1\<close>; \<open>processCommit\<close> advances commit
  only when prepare is above commit; and after a run of any length a Commit at \<open>s\<close> is
  classified \<open>current\<close>, or released by \<open>next\<close>, only when the run has accepted the
  Preprepare or Prepare at \<open>s\<close> of the same bucket since its last \<open>newEpoch\<close>.
\<close>

theorem cursors_ordered_commit_after_prepare:
  "(length ops < 18446744073709551615 \<longrightarrow>
      cursorsOrdered (applyOps (newNodeMsgs nodeID ec ods) ops)) \<and>
   (cursorsOrdered n \<and> (\<forall>(b, nxt) \<in> set (em_next (nm_epochMsgs n)). prepare nxt \<noteq> - 1) \<longrightarrow>
      cursorsOrdered (snd (nodeMsgs_process n m))) \<and>
   (fst (processCommit e msg) = current \<longrightarrow>
      (\<exists>nxt. map_of (em_next e) (c_Bucket msg) = Some nxt \<and>
         commit nxt = c_SeqNo msg \<and> c_SeqNo msg < prepare nxt)) \<and>
   (fst (nodeMsgs_process (applyOps (newNodeMsgs nodeID ec ods) run) (Msg_Commit c)) = Inr current \<longrightarrow>
      (c_Bucket c, c_SeqNo c) \<in> set (acceptedPrepares (newNodeMsgs nodeID ec ods) run [])) \<and>
   (fst (nodeMsgs_next (applyOps (newNodeMsgs nodeID ec ods) run) ord) = Inr (Some (Msg_Commit c)) \<longrightarrow>
      (c_Bucket c, c_SeqNo c) \<in> set (acceptedPrepares (newNodeMsgs nodeID ec ods) run []))"
proof (intro conjI impI)
  assume "length ops < 18446744073709551615"
  then show "cursorsOrdered (applyOps (newNodeMsgs nodeID ec ods) ops)"
    using applyOps_bounded[of 0 "newNodeMsgs nodeID ec ods" ops] newEpochMsgs_bounded[of 0 nodeID ec]
    by (auto simp: cursorsOrdered_def emBounded_def newNodeMsgs_def list_all_iff)
next
  assume "cursorsOrdered n \<and> (\<forall>(b, nxt) \<in> set (em_next (nm_epochMsgs n)). prepare nxt \<noteq> - 1)"
  then show "cursorsOrdered (snd (nodeMsgs_process n m))"
    by (intro process_cursorsOrdered) auto
next
  assume "fst (processCommit e msg) = current"
  then show "\<exists>nxt. map_of (em_next e) (c_Bucket msg) = Some nxt \<and>
         commit nxt = c_SeqNo msg \<and> c_SeqNo msg < prepare nxt"
    by (rule processCommit_current)
next
  assume "fst (nodeMsgs_process (applyOps (newNodeMsgs nodeID ec ods) run) (Msg_Commit c)) = Inr current"
  then show "(c_Bucket c, c_SeqNo c) \<in> set (acceptedPrepares (newNodeMsgs nodeID ec ods) run [])"
    by (rule run_commit_current)
next
  assume "fst (nodeMsgs_next (applyOps (newNodeMsgs nodeID ec ods) run) ord) = Inr (Some (Msg_Commit c))"
  then show "(c_Bucket c, c_SeqNo c) \<in> set (acceptedPrepares (newNodeMsgs nodeID ec ods) run [])"
    by (rule run_commit_released)
qed

theorem cursors_ordered_commit_after_prepare_witness:
  "length [ProcessOp (ex_preprepare 1), ProcessOp (ex_preprepare 2), ProcessOp (ex_commit 1)]
     < 18446744073709551615 \<and>
   cursorsOrdered (applyOps (newNodeMsgs 1 ex_ec [])
     [ProcessOp (ex_preprepare 1), ProcessOp (ex_preprepare 2), ProcessOp (ex_commit 1)]) \<and>
   cursorsOrdered ex_run \<and>
   list_all (\<lambda>(b, nxt). prepare nxt \<noteq> - 1) (em_next (nm_epochMsgs ex_run)) \<and>
   cursorsOrdered (snd (nodeMsgs_process ex_run (ex_commit 2))) \<and>
   fst (processCommit (nm_epochMsgs ex_run) \<lparr>c_SeqNo = 2, c_Epoch = 2, c_Bucket = 0, c_Digest = []\<rparr>)
     = current \<and>
   (\<exists>nxt. map_of (em_next (nm_epochMsgs ex_run)) 0 = Some nxt \<and> commit nxt = 2 \<and> 2 < prepare nxt) \<and>
   fst (nodeMsgs_process (applyOps (newNodeMsgs 1 ex_ec [])
          [ProcessOp (ex_preprepare 1), ProcessOp (ex_preprepare 2), ProcessOp (ex_commit 1)])
        (Msg_Commit \<lparr>c_SeqNo = 2, c_Epoch = 2, c_Bucket = 0, c_Digest = []\<rparr>)) = Inr current \<and>
   (0, 2) \<in> set (acceptedPrepares (newNodeMsgs 1 ex_ec [])
          [ProcessOp (ex_preprepare 1), ProcessOp (ex_preprepare 2), ProcessOp (ex_commit 1)] []) \<and>
   fst (nodeMsgs_next (applyOps (newNodeMsgs 1 ex_ec [])
          [ProcessOp (ex_preprepare 1), NextOp [ex_preprepare 2],
           IngestOp (Msg_Commit \<lparr>c_SeqNo = 1, c_Epoch = 2, c_Bucket = 0, c_Digest = []\<rparr>)])
        [Msg_Commit \<lparr>c_SeqNo = 1, c_Epoch = 2, c_Bucket = 0, c_Digest = []\<rparr>])
     = Inr (Some (Msg_Commit \<lparr>c_SeqNo = 1, c_Epoch = 2, c_Bucket = 0, c_Digest = []\<rparr>)) \<and>
   (0, 1) \<in> set (acceptedPrepares (newNodeMsgs 1 ex_ec [])
          [ProcessOp (ex_preprepare 1), NextOp [ex_preprepare 2],
           IngestOp (Msg_Commit \<lparr>c_SeqNo = 1, c_Epoch = 2, c_Bucket = 0, c_Digest = []\<rparr>)] [])"
proof -
  let ?c1 = "\<lparr>c_SeqNo = 1, c_Epoch = 2, c_Bucket = 0, c_Digest = []\<rparr>"
  let ?c2 = "\<lparr>c_SeqNo = 2, c_Epoch = 2, c_Bucket = 0, c_Digest = []\<rparr>"
  let ?ops = "[ProcessOp (ex_preprepare 1), ProcessOp (ex_preprepare 2), ProcessOp (ex_commit 1)]"
  let ?run = "[ProcessOp (ex_preprepare 1), NextOp [ex_preprepare 2], IngestOp (Msg_Commit ?c1)]"
  have a: "fst (nodeMsgs_process (applyOps (newNodeMsgs 1 ex_ec []) ?ops) (Msg_Commit ?c2)) = Inr current"
    by code_simp
  have b: "fst (nodeMsgs_next (applyOps (newNodeMsgs 1 ex_ec []) ?run) [Msg_Commit ?c1])
      = Inr (Some (Msg_Commit ?c1))"
    by code_simp
  have first: "length ?ops < 18446744073709551615 \<and>
      cursorsOrdered (applyOps (newNodeMsgs 1 ex_ec []) ?ops) \<and>
      cursorsOrdered ex_run \<and>
      list_all (\<lambda>(b, nxt). prepare nxt \<noteq> - 1) (em_next (nm_epochMsgs ex_run)) \<and>
      cursorsOrdered (snd (nodeMsgs_process ex_run (ex_commit 2))) \<and>
      fst (processCommit (nm_epochMsgs ex_run) ?c2) = current \<and>
      (\<exists>nxt. map_of (em_next (nm_epochMsgs ex_run)) 0 = Some nxt \<and> commit nxt = 2 \<and> 2 < prepare nxt) \<and>
      (0, 2) \<in> set (acceptedPrepares (newNodeMsgs 1 ex_ec []) ?ops [])"
    using cursors_ordered_commit_after_prepare [of ?ops 1 ex_ec "[]" ex_run "ex_commit 2"
        "nm_epochMsgs ex_run" ?c2 ?ops ?c2 "[]"] a
    by (simp add: ex_run_eq cursorsOrdered_def processCommit_def)
  have second: "(0, 1) \<in> set (acceptedPrepares (newNodeMsgs 1 ex_ec []) ?run [])"
    using cursors_ordered_commit_after_prepare [of "[]" 1 ex_ec "[]" ex_run "ex_commit 2"
        "nm_epochMsgs ex_run" ?c2 ?run ?c1 "[Msg_Commit ?c1]"] b
    by simp
  from first second a b show ?thesis by simp
qed

section \<open>The sequence: quorum safety\<close>

text \<open>The loop of \<open>advanceState\<close> changes neither the tallies nor the digest.\<close>

lemma stateNum_le: "stateNum st \<le> 6"
  by (cases st) auto

lemma beforePrepared_iff: "beforePrepared st \<longleftrightarrow> stateNum st < 5"
  by (cases st) (auto simp: beforePrepared_def)

lemma committed_iff: "st = sequenceCommitted \<longleftrightarrow> stateNum st = 6"
  by (cases st) auto

lemma advanceBody_sameTallies: "sameTallies s (snd (advanceBody s))"
  by (cases "state s")
    (auto simp: sameTallies_def advanceBody_def checkRequests_def sequence_prepare_def
      checkPrepareQuorum_def checkCommitQuorum_def addQEntry_def addPEntry_def Let_def)

lemma sameTallies_trans: "sameTallies a b \<Longrightarrow> sameTallies b c \<Longrightarrow> sameTallies a c"
  by (simp add: sameTallies_def)

lemma advanceState_loop_sameTallies: "sameTallies s (snd (advanceState_loop acts s))"
proof (induction acts s rule: advanceState_loop.induct)
  case (1 actions s)
  show ?case
  proof (cases "state (snd (advanceBody s)) = state s")
    case True
    then show ?thesis
      by (subst advanceState_loop.simps) (simp add: Let_def advanceBody_sameTallies)
  next
    case False
    from 1[OF refl refl False]
    have "sameTallies (snd (advanceBody s))
            (snd (advanceState_loop (actions @ fst (advanceBody s)) (snd (advanceBody s))))" .
    with advanceBody_sameTallies[of s] False show ?thesis
      by (subst advanceState_loop.simps) (auto simp: Let_def intro: sameTallies_trans)
  qed
qed

lemma sameTallies_quorum:
  "sameTallies s s' \<Longrightarrow> prepareQuorumMet s' = prepareQuorumMet s"
  "sameTallies s s' \<Longrightarrow> commitQuorumMet s' = commitQuorumMet s"
  by (simp_all add: sameTallies_def prepareQuorumMet_def commitQuorumMet_def)

lemma advanceBody_to_prepared:
  assumes "stateNum (state s) < 5" "5 \<le> stateNum (state (snd (advanceBody s)))"
  shows "prepareQuorumMet s"
  using assms
  by (cases "state s")
    (auto simp: advanceBody_def checkRequests_def sequence_prepare_def prepareQuorumMet_def
      checkPrepareQuorum_def addQEntry_def addPEntry_def Let_def split: if_splits)

lemma advanceBody_to_committed:
  assumes "stateNum (state s) < 6" "stateNum (state (snd (advanceBody s))) = 6"
  shows "commitQuorumMet s"
  using assms
  by (cases "state s")
    (auto simp: advanceBody_def checkRequests_def sequence_prepare_def commitQuorumMet_def
      checkPrepareQuorum_def checkCommitQuorum_def addQEntry_def addPEntry_def Let_def split: if_splits)

lemma advanceState_loop_quorum:
  "(stateNum (state s) < 5 \<and> 5 \<le> stateNum (state (snd (advanceState_loop acts s)))
      \<longrightarrow> prepareQuorumMet s) \<and>
   (stateNum (state s) < 6 \<and> stateNum (state (snd (advanceState_loop acts s))) = 6
      \<longrightarrow> commitQuorumMet s)"
proof (induction acts s rule: advanceState_loop.induct)
  case (1 actions s)
  let ?s1 = "snd (advanceBody s)"
  show ?case
  proof (cases "state ?s1 = state s")
    case True
    then have "snd (advanceState_loop actions s) = ?s1"
      by (subst advanceState_loop.simps) (simp add: Let_def)
    with True show ?thesis by auto
  next
    case False
    let ?s' = "snd (advanceState_loop (actions @ fst (advanceBody s)) ?s1)"
    from False have eq: "snd (advanceState_loop actions s) = ?s'"
      by (subst advanceState_loop.simps) (simp add: Let_def)
    note IH = 1[OF refl refl False]
    have st: "sameTallies s ?s1" by (rule advanceBody_sameTallies)
    have A: "prepareQuorumMet s" if "stateNum (state s) < 5" "5 \<le> stateNum (state ?s')"
    proof (cases "stateNum (state ?s1) < 5")
      case True
      with IH that have "prepareQuorumMet ?s1" by simp
      then show ?thesis using sameTallies_quorum(1)[OF st] by simp
    next
      case False
      with that show ?thesis by (intro advanceBody_to_prepared) auto
    qed
    have B: "commitQuorumMet s" if "stateNum (state s) < 6" "stateNum (state ?s') = 6"
    proof (cases "stateNum (state ?s1) < 6")
      case True
      with IH that have "commitQuorumMet ?s1" by simp
      then show ?thesis using sameTallies_quorum(2)[OF st] by simp
    next
      case False
      then have "stateNum (state ?s1) = 6" using stateNum_le[of "state ?s1"] by simp
      with that show ?thesis by (intro advanceBody_to_committed) auto
    qed
    from A B show ?thesis unfolding eq by blast
  qed
qed

lemma advanceState_quorum:
  "(stateNum (state s) < 5 \<and> 5 \<le> stateNum (state (snd (advanceState s)))
      \<longrightarrow> prepareQuorumMet (snd (advanceState s))) \<and>
   (stateNum (state s) < 6 \<and> stateNum (state (snd (advanceState s))) = 6
      \<longrightarrow> commitQuorumMet (snd (advanceState s)))"
proof -
  have "sameTallies s (snd (advanceState s))"
    unfolding advanceState_def by (rule advanceState_loop_sameTallies)
  then show ?thesis
    using advanceState_loop_quorum[of s "[]"] sameTallies_quorum[of s "snd (advanceState s)"]
    unfolding advanceState_def by simp
qed

lemma via_advanceState:
  assumes "s' = snd (advanceState s0)"
    and "stateNum (state s) < 5 \<Longrightarrow> stateNum (state s0) < 5"
    and "stateNum (state s) < 6 \<Longrightarrow> stateNum (state s0) < 6"
  shows "(stateNum (state s) < 5 \<and> 5 \<le> stateNum (state s') \<longrightarrow> prepareQuorumMet s') \<and>
         (stateNum (state s) < 6 \<and> stateNum (state s') = 6 \<longrightarrow> commitQuorumMet s')"
  using advanceState_quorum[of s0] assms by blast

lemma allocate_result:
  assumes "allocate s acks outstanding = Inr r"
  shows "\<exists>s0. snd r = snd (advanceState s0) \<and> stateNum (state s0) < 4"
proof (cases "length acks = 0")
  case True
  with assms have "snd r = snd (applyBatchHashResult
      (s\<lparr>state := sequenceAllocated, batch := acks, outstandingReqs := outstanding,
         state := sequenceReady\<rparr>) None)"
    by (auto simp: allocate_def Let_def split: if_splits)
  then show ?thesis
    unfolding applyBatchHashResult_def applyPrepareMsg_def Let_def
    by (intro exI conjI, assumption) simp
next
  case False
  with assms have "snd r = snd (advanceState
      (s\<lparr>state := sequenceAllocated, batch := acks, outstandingReqs := outstanding,
         state := sequencePendingRequests\<rparr>))"
    by (auto simp: allocate_def Let_def split: if_splits)
  then show ?thesis by (intro exI conjI, assumption) simp
qed


lemma applySeqOp_cases:
  assumes "applySeqOp s op = Inr (acts, s')"
  shows "\<exists>s0. s' = snd (advanceState s0) \<and>
    (stateNum (state s) < 5 \<longrightarrow> stateNum (state s0) < 5) \<and>
    (stateNum (state s) < 6 \<longrightarrow> stateNum (state s0) < 6)"
proof (cases op)
  case (Allocate acks outstanding)
  with assms obtain s0 where "s' = snd (advanceState s0)" "stateNum (state s0) < 4"
    using allocate_result[of s acks _ "(acts, s')"] by auto
  then show ?thesis by (intro exI[of _ s0]) auto
next
  case (AllocateAsOwner acks)
  with assms obtain s0 where "s' = snd (advanceState s0)" "stateNum (state s0) < 4"
    using allocate_result[of s acks _ "(acts, s')"] by (auto simp: allocateAsOwner_def)
  then show ?thesis by (intro exI[of _ s0]) auto
next
  case (SatisfyOutstanding fr)
  with assms have "s' = snd (advanceState (s\<lparr>outstandingReqs := outstandingReqs s - {ack_Digest fr}\<rparr>))"
    by (auto simp: satisfyOutstanding_def split: if_splits)
  then show ?thesis by (intro exI conjI, assumption) auto
next
  case (ApplyBatchHashResult d)
  with assms have "s' = snd (advanceState (s\<lparr>digest := d,
      prepares := (prepares s)(string_of d \<mapsto>
         insert (owner s) (case prepares s (string_of d) of None \<Rightarrow> {} | Some a \<Rightarrow> a))\<rparr>))"
    by (auto simp: applyBatchHashResult_def applyPrepareMsg_def Let_def)
  then show ?thesis by (intro exI conjI, assumption) auto
next
  case (ApplyPrepareMsg source d)
  with assms have "s' = snd (advanceState (s\<lparr>prepares := (prepares s)(string_of d \<mapsto>
         insert source (case prepares s (string_of d) of None \<Rightarrow> {} | Some a \<Rightarrow> a))\<rparr>))"
    by (auto simp: applyPrepareMsg_def Let_def)
  then show ?thesis by (intro exI conjI, assumption) auto
next
  case (ApplyCommitMsg source d)
  with assms have "s' = snd (advanceState (s\<lparr>commits := (commits s)(string_of d \<mapsto>
         insert source (case commits s (string_of d) of None \<Rightarrow> {} | Some a \<Rightarrow> a))\<rparr>))"
    by (auto simp: applyCommitMsg_def Let_def)
  then show ?thesis by (intro exI conjI, assumption) auto
qed

lemma advanceState_sameTallies: "sameTallies s (snd (advanceState s))"
  unfolding advanceState_def by (rule advanceState_loop_sameTallies)

lemma other_digest_prepare:
  assumes "string_of d \<noteq> string_of (digest s)"
  shows "prepareQuorumMet (snd (applyPrepareMsg s source d)) = prepareQuorumMet s"
proof -
  let ?s0 = "s\<lparr>prepares := (prepares s)(string_of d \<mapsto>
         insert source (case prepares s (string_of d) of None \<Rightarrow> {} | Some a \<Rightarrow> a))\<rparr>"
  have "prepareQuorumMet (snd (advanceState ?s0)) = prepareQuorumMet ?s0"
    by (rule sameTallies_quorum(1)[OF advanceState_sameTallies])
  moreover have "prepareQuorumMet ?s0 = prepareQuorumMet s"
    using assms by (simp add: prepareQuorumMet_def agreementsOf_def)
  ultimately show ?thesis by (simp add: applyPrepareMsg_def Let_def)
qed

lemma other_digest_commit:
  assumes "string_of d \<noteq> string_of (digest s)"
  shows "commitQuorumMet (snd (applyCommitMsg s source d)) = commitQuorumMet s"
proof -
  let ?s0 = "s\<lparr>commits := (commits s)(string_of d \<mapsto>
         insert source (case commits s (string_of d) of None \<Rightarrow> {} | Some a \<Rightarrow> a))\<rparr>"
  have "commitQuorumMet (snd (advanceState ?s0)) = commitQuorumMet ?s0"
    by (rule sameTallies_quorum(2)[OF advanceState_sameTallies])
  moreover have "commitQuorumMet ?s0 = commitQuorumMet s"
    using assms by (simp add: commitQuorumMet_def agreementsOf_def)
  ultimately show ?thesis by (simp add: applyCommitMsg_def Let_def)
qed

text \<open>
  C1. Whatever the sequence and the call: when the call takes the sequence from a state
  before \<open>Prepared\<close> to \<open>Prepared\<close> or beyond, the local node is in the prepare tally of the
  sequence's own digest and that tally has reached the intersection quorum; when it takes
  the sequence to \<open>Committed\<close>, the same holds of the commit tally. A prepare or a commit
  recorded under another digest leaves a sequence whose own tally falls short where it is.
\<close>

theorem quorum_safety:
  assumes "applySeqOp s op = Inr (acts, s')"
  shows "(beforePrepared (state s) \<and> \<not> beforePrepared (state s') \<longrightarrow> prepareQuorumMet s') \<and>
         (state s \<noteq> sequenceCommitted \<and> state s' = sequenceCommitted \<longrightarrow> commitQuorumMet s') \<and>
         (op = ApplyPrepareMsg source d \<and> string_of d \<noteq> string_of (digest s) \<and>
            \<not> prepareQuorumMet s \<and> beforePrepared (state s) \<longrightarrow> beforePrepared (state s')) \<and>
         (op = ApplyCommitMsg source d \<and> string_of d \<noteq> string_of (digest s) \<and>
            \<not> commitQuorumMet s \<and> state s \<noteq> sequenceCommitted \<longrightarrow> state s' \<noteq> sequenceCommitted)"
proof -
  from applySeqOp_cases[OF assms] obtain s0 where s0: "s' = snd (advanceState s0)"
    "stateNum (state s) < 5 \<longrightarrow> stateNum (state s0) < 5"
    "stateNum (state s) < 6 \<longrightarrow> stateNum (state s0) < 6"
    by blast
  have lt6: "stateNum st < 6 \<longleftrightarrow> st \<noteq> sequenceCommitted" for st
    using stateNum_le[of st] by (auto simp: committed_iff)
  have main: "(beforePrepared (state s) \<and> \<not> beforePrepared (state s') \<longrightarrow> prepareQuorumMet s') \<and>
         (state s \<noteq> sequenceCommitted \<and> state s' = sequenceCommitted \<longrightarrow> commitQuorumMet s')"
    using via_advanceState[of s' s0 s] s0 lt6[of "state s"]
    unfolding beforePrepared_iff committed_iff by (auto simp: not_less)
  have p: "beforePrepared (state s')"
    if "op = ApplyPrepareMsg source d" "string_of d \<noteq> string_of (digest s)"
      "\<not> prepareQuorumMet s" "beforePrepared (state s)"
  proof -
    from that(1) assms have "s' = snd (applyPrepareMsg s source d)" by simp
    with other_digest_prepare[OF that(2)] that(3) have "\<not> prepareQuorumMet s'" by simp
    with main that(4) show ?thesis by blast
  qed
  have c: "state s' \<noteq> sequenceCommitted"
    if "op = ApplyCommitMsg source d" "string_of d \<noteq> string_of (digest s)"
      "\<not> commitQuorumMet s" "state s \<noteq> sequenceCommitted"
  proof -
    from that(1) assms have "s' = snd (applyCommitMsg s source d)" by simp
    with other_digest_commit[OF that(2)] that(3) have "\<not> commitQuorumMet s'" by simp
    with main that(4) show ?thesis by blast
  qed
  from main p c show ?thesis by blast
qed

theorem quorum_safety_witness:
  "beforePrepared (state ex_seq) \<and>
   state (snd (applyPrepareMsg ex_seq 2 (Some [187]))) = sequenceCommitted \<and>
   prepareQuorumMet (snd (applyPrepareMsg ex_seq 2 (Some [187]))) \<and>
   commitQuorumMet (snd (applyPrepareMsg ex_seq 2 (Some [187]))) \<and>
   \<not> prepareQuorumMet ex_seq \<and>
   beforePrepared (state (snd (applyPrepareMsg ex_seq 2 (Some [204])))) \<and>
   state ex_seq_prepared = sequencePrepared \<and>
   \<not> commitQuorumMet ex_seq_prepared \<and>
   state (snd (applyCommitMsg ex_seq_prepared 2 (Some [204]))) \<noteq> sequenceCommitted"
proof -
  have a: "beforePrepared (state ex_seq)" "state ex_seq \<noteq> sequenceCommitted"
    "\<not> prepareQuorumMet ex_seq" "string_of (Some [204]) \<noteq> string_of (digest ex_seq)"
    by code_simp+
  have b: "state (snd (applyPrepareMsg ex_seq 2 (Some [187]))) = sequenceCommitted"
    by code_simp
  have c: "state ex_seq_prepared = sequencePrepared" "\<not> commitQuorumMet ex_seq_prepared"
    "string_of (Some [204]) \<noteq> string_of (digest ex_seq_prepared)"
    by code_simp+
  have "prepareQuorumMet (snd (applyPrepareMsg ex_seq 2 (Some [187]))) \<and>
        commitQuorumMet (snd (applyPrepareMsg ex_seq 2 (Some [187])))"
    using quorum_safety [of ex_seq "ApplyPrepareMsg 2 (Some [187])"
        "fst (applyPrepareMsg ex_seq 2 (Some [187]))" "snd (applyPrepareMsg ex_seq 2 (Some [187]))"]
      a b by (simp add: beforePrepared_def)
  moreover have "beforePrepared (state (snd (applyPrepareMsg ex_seq 2 (Some [204]))))"
    using quorum_safety [of ex_seq "ApplyPrepareMsg 2 (Some [204])"
        "fst (applyPrepareMsg ex_seq 2 (Some [204]))" "snd (applyPrepareMsg ex_seq 2 (Some [204]))"
        2 "Some [204]"]
      a by simp
  moreover have "state (snd (applyCommitMsg ex_seq_prepared 2 (Some [204]))) \<noteq> sequenceCommitted"
    using quorum_safety [of ex_seq_prepared "ApplyCommitMsg 2 (Some [204])"
        "fst (applyCommitMsg ex_seq_prepared 2 (Some [204]))"
        "snd (applyCommitMsg ex_seq_prepared 2 (Some [204]))" 2 "Some [204]"]
      c by simp
  ultimately show ?thesis using a b c by simp
qed

section \<open>The sequence: the result of the batch hash\<close>

text \<open>\<open>ex_backup\<close> is what \<open>allocate\<close> leaves of a new sequence at node 1.\<close>

lemma ex_backup_allocated:
  "allocate (newSequence 0 1 1 [] ex_nc 1) [ex_ack] {} =
     Inr ([Hash \<lparr>hr_Data = [[170]],
             hr_Origin = \<lparr>hb_Source = 0, hb_SeqNo = 1, hb_Epoch = 1, hb_RequestAcks = [ex_ack]\<rparr>\<rparr>],
          ex_backup)"
  by (simp add: allocate_def newSequence_def ex_backup_def ex_ack_def advanceState_def
      advanceState_loop.simps advanceBody_def checkRequests_def Let_def)

text \<open>
  C7, as stated, fails: at the backup \<open>ex_backup\<close> (node 1, the owner is node 0) the
  result of the batch hash does not put the local node into the prepare tally of the
  digest, as the local node's own prepare would.
\<close>

theorem applyBatchHashResult_not_own_prepare:
  "myConfig_Id ex_backup \<notin>
     agreementsOf (prepares (snd (applyBatchHashResult ex_backup (Some [187])))) (Some [187]) \<and>
   myConfig_Id ex_backup \<in>
     agreementsOf (prepares (snd (applyPrepareMsg (ex_backup\<lparr>digest := Some [187]\<rparr>)
        (myConfig_Id ex_backup) (Some [187])))) (Some [187])"
  by code_simp

text \<open>
  C7, amended. \<open>applyBatchHashResult\<close> stores the digest and has the effect of receiving
  the prepare of the owner of the sequence for that digest: it records the owner's id in
  the prepare tally of the digest before driving the state machine.
\<close>

theorem applyBatchHashResult_records_owner:
  "digest (snd (applyBatchHashResult s d)) = d \<and>
   prepares (snd (applyBatchHashResult s d)) =
     (prepares s)(string_of d \<mapsto> insert (owner s) (agreementsOf (prepares s) d)) \<and>
   applyBatchHashResult s d = applyPrepareMsg (s\<lparr>digest := d\<rparr>) (owner s) d"
proof -
  let ?s0 = "s\<lparr>digest := d, prepares := (prepares s)(string_of d \<mapsto>
         insert (owner s) (case prepares s (string_of d) of None \<Rightarrow> {} | Some a \<Rightarrow> a))\<rparr>"
  have "applyBatchHashResult s d = advanceState ?s0"
    by (simp add: applyBatchHashResult_def applyPrepareMsg_def Let_def)
  moreover have "sameTallies ?s0 (snd (advanceState ?s0))"
    by (rule advanceState_sameTallies)
  ultimately show ?thesis
    by (simp add: sameTallies_def agreementsOf_def applyBatchHashResult_def)
qed

section \<open>The new epoch configuration: conflicting checkpoints\<close>

text \<open>
  C4. The claim: two admissible checkpoint keys with the same sequence number and
  different values make \<open>constructNewEpochConfig\<close> abort. The source compares a key with
  the running maximum only. In \<open>ex_conflict\<close> the keys \<open>(10, 0xAA)\<close> and \<open>(10, 0xBB)\<close>
  are both admissible; when the range over \<open>checkpoints\<close> visits \<open>(20, 0xCC)\<close> between
  them, the function returns a configuration that starts at \<open>(20, 0xCC)\<close>, and when it
  visits the two one after the other, the function panics.
\<close>

theorem conflicting_checkpoints_not_detected:
  "admissible ex_nc ex_conflict ex_keyA \<and> admissible ex_nc ex_conflict ex_keyB \<and>
   ck_SeqNo ex_keyA = ck_SeqNo ex_keyB \<and> ck_Value ex_keyA \<noteq> ck_Value ex_keyB \<and>
   rangeOrder (checkpointsOf ex_conflict) [ex_keyA, ex_keyC, ex_keyB] \<and>
   constructNewEpochConfig ex_nc [0] ex_conflict [ex_keyA, ex_keyC, ex_keyB] =
     Inr (Some \<lparr>Config = \<lparr>Number = 7, Leaders = [0], PlannedExpiration = 120\<rparr>,
       StartingCheckpoint = \<lparr>cp_SeqNo = 20, cp_Value = [204]\<rparr>, FinalPreprepares = []\<rparr>) \<and>
   rangeOrder (checkpointsOf ex_conflict) [ex_keyA, ex_keyB, ex_keyC] \<and>
   constructNewEpochConfig ex_nc [0] ex_conflict [ex_keyA, ex_keyB, ex_keyC] =
     Inl (Panic ''two correct quorums have different checkpoints for same seqno'')"
  by code_simp

section \<open>The new epoch configuration: condition A\<close>

text \<open>
  C5, as stated, fails: an epoch change whose low watermark is at or above the sequence
  number is skipped, not counted. In \<open>ex_ahead\<close> two epoch changes prepared \<open>ex_entry\<close> at
  11 and the third has low watermark 20: the source counts 2 for A1, the spec's words
  give 3, the intersection quorum, and the candidate is not selected.
\<close>

theorem a1Count_skips_high_watermark:
  "a1Count ex_ahead 11 ex_entry = 2 \<and> a1Count_spec ex_ahead 11 ex_entry = 3 \<and>
   intersectionQuorum ex_nc = 3 \<and> a2Count ex_ahead 11 ex_entry = 2 \<and>
   someCorrectQuorum ex_nc = 2 \<and> selectEntry ex_nc ex_ahead 11 (Nodes ex_nc) = None"
  by code_simp

lemma a1Count_filter:
  "a1Count ecs sn entry = int (length (filter (\<lambda>(i, ec). a1Agrees sn entry ec) ecs))"
proof (induction ecs)
  case Nil
  show ?case by simp
next
  case (Cons x ecs)
  obtain i ec where x: "x = (i, ec)" by (cases x)
  show ?case
    unfolding x using Cons.IH
    by (auto simp: a1Agrees_def not_le split: option.splits)
qed

lemma qSetAgrees_iff:
  "qSetAgrees es entry \<longleftrightarrow> list_ex (\<lambda>(ep, dg). se_Epoch entry \<le> ep \<and> dg = se_Digest entry) es"
  by (induction es entry rule: qSetAgrees.induct) (auto simp: not_less)

lemma a2Count_filter:
  "a2Count ecs sn entry = int (length (filter (\<lambda>(i, ec). a2Agrees sn entry ec) ecs))"
proof (induction ecs)
  case Nil
  show ?case by simp
next
  case (Cons x ecs)
  obtain i ec where x: "x = (i, ec)" by (cases x)
  show ?case
    unfolding x using Cons.IH
    by (auto simp: a2Agrees_def qSetAgrees_iff split: option.splits)
qed

lemma selectEntry_Some:
  assumes "selectEntry config ecs sn nodes = Some entry"
  shows "intersectionQuorum config \<le> a1Count ecs sn entry \<and>
         someCorrectQuorum config \<le> a2Count ecs sn entry \<and>
         list_ex (\<lambda>nodeID. case map_of ecs nodeID of
                    None \<Rightarrow> False | Some ec \<Rightarrow> pSet ec sn = Some entry) nodes"
  using assms
proof (induction nodes)
  case Nil
  then show ?case by simp
next
  case (Cons nodeID nodes)
  then show ?case
    by (auto split: option.splits if_splits)
qed

text \<open>
  C5, amended. For a candidate entry \<open>E\<close> at a sequence number, the A1 count is the
  number of epoch changes that have a low watermark below the sequence number and either
  no \<open>pSet\<close> entry there, or one of an epoch below that of \<open>E\<close>, or one of the epoch and
  the digest of \<open>E\<close>; the A2 count is the number of epoch changes whose \<open>qSet\<close> there has an
  entry of the digest of \<open>E\<close> and an epoch at or above that of \<open>E\<close>. A selected entry is the
  \<open>pSet\<close> entry of a node of \<open>config.Nodes\<close>, with an A1 count that reaches the intersection
  quorum and an A2 count that reaches the some-correct quorum.
\<close>

theorem a1Count_counts:
  "a1Count ecs sn entry = int (length (filter (\<lambda>(i, ec). a1Agrees sn entry ec) ecs)) \<and>
   a2Count ecs sn entry = int (length (filter (\<lambda>(i, ec). a2Agrees sn entry ec) ecs)) \<and>
   (selectEntry config ecs sn nodes = Some entry \<longrightarrow>
      intersectionQuorum config \<le> a1Count ecs sn entry \<and>
      someCorrectQuorum config \<le> a2Count ecs sn entry \<and>
      list_ex (\<lambda>nodeID. case map_of ecs nodeID of
                 None \<Rightarrow> False | Some ec \<Rightarrow> pSet ec sn = Some entry) nodes)"
  using a1Count_filter a2Count_filter selectEntry_Some by blast

theorem a1Count_counts_witness:
  "selectEntry ex_nc ex_quorum 11 (Nodes ex_nc) = Some ex_entry \<and>
   a1Count ex_quorum 11 ex_entry = 4 \<and> intersectionQuorum ex_nc = 3 \<and>
   a2Count ex_quorum 11 ex_entry = 3 \<and> someCorrectQuorum ex_nc = 2 \<and>
   length (filter (\<lambda>(i, ec). a1Agrees 11 ex_entry ec) ex_quorum) = 4 \<and>
   length (filter (\<lambda>(i, ec). a2Agrees 11 ex_entry ec) ex_quorum) = 3"
proof -
  have s: "selectEntry ex_nc ex_quorum 11 (Nodes ex_nc) = Some ex_entry"
    by code_simp
  have c: "a1Count ex_quorum 11 ex_entry = 4" "a2Count ex_quorum 11 ex_entry = 3"
    "intersectionQuorum ex_nc = 3" "someCorrectQuorum ex_nc = 2"
    by code_simp+
  from a1Count_counts [of ex_quorum 11 ex_entry ex_nc "Nodes ex_nc"] s c
  show ?thesis by simp
qed

section \<open>The new epoch configuration: determinism\<close>















text \<open>
  A selection that does not panic returns the one passing key that is above every other
  passing key, whatever the order of the keys.
\<close>

lemma selectCheckpoint_Inl:
  "selectCheckpoint config ecs cps ks acc = Inl e \<Longrightarrow>
     e = Panic ''two correct quorums have different checkpoints for same seqno''"
  by (induction ks arbitrary: acc) (auto split: if_splits option.splits)

lemma selectCheckpoint_skip:
  "\<not> passes config ecs cps key \<Longrightarrow>
     selectCheckpoint config ecs cps (key # keys) acc = selectCheckpoint config ecs cps keys acc"
  by (auto simp: passes_def)

lemma selectCheckpoint_first:
  "passes config ecs cps key \<Longrightarrow>
     selectCheckpoint config ecs cps (key # keys) None =
       selectCheckpoint config ecs cps keys (Some key)"
  by (auto simp: passes_def)

lemma selectCheckpoint_next:
  "passes config ecs cps key \<Longrightarrow>
     selectCheckpoint config ecs cps (key # keys) (Some m) =
       (if ck_SeqNo m > ck_SeqNo key then selectCheckpoint config ecs cps keys (Some m)
        else if ck_SeqNo m = ck_SeqNo key then
          Inl (Panic ''two correct quorums have different checkpoints for same seqno'')
        else selectCheckpoint config ecs cps keys (Some key))"
  by (auto simp: passes_def)

lemma selectCheckpoint_result:
  assumes "selectCheckpoint config ecs cps ks acc = Inr r" "distinct ks"
    "\<forall>a. acc = Some a \<longrightarrow> a \<notin> set ks"
  shows "(r = None \<longleftrightarrow> acc = None \<and> (\<forall>k \<in> set ks. \<not> passes config ecs cps k)) \<and>
     (\<forall>m. r = Some m \<longrightarrow>
        (acc = Some m \<or> (m \<in> set ks \<and> passes config ecs cps m)) \<and>
        (\<forall>a. acc = Some a \<longrightarrow> a = m \<or> ck_SeqNo a < ck_SeqNo m) \<and>
        (\<forall>k \<in> set ks. passes config ecs cps k \<longrightarrow> k = m \<or> ck_SeqNo k < ck_SeqNo m))"
  using assms
proof (induction ks arbitrary: acc)
  case Nil
  then show ?case by auto
next
  case (Cons key keys)
  from Cons.prems(2) have d: "distinct keys" "key \<notin> set keys" by auto
  show ?case
  proof (cases "passes config ecs cps key")
    case False
    have "selectCheckpoint config ecs cps keys acc = Inr r"
      using selectCheckpoint_skip[OF False, of keys acc] Cons.prems(1) by simp
    from Cons.IH[OF this d(1)] Cons.prems(3) False show ?thesis by auto
  next
    case True
    show ?thesis
    proof (cases acc)
      case None
      have "selectCheckpoint config ecs cps keys (Some key) = Inr r"
        using selectCheckpoint_first[OF True, of keys] Cons.prems(1) None by simp
      from Cons.IH[OF this d(1)] d(2) None True show ?thesis by auto
    next
      case (Some a)
      from Cons.prems(3) Some have an: "a \<noteq> key" "a \<notin> set keys" by auto
      from Cons.prems(1) Some selectCheckpoint_next[OF True, of keys a]
      consider "ck_SeqNo key < ck_SeqNo a" "selectCheckpoint config ecs cps keys (Some a) = Inr r"
        | "ck_SeqNo a < ck_SeqNo key" "selectCheckpoint config ecs cps keys (Some key) = Inr r"
        by (cases "ck_SeqNo key < ck_SeqNo a"; cases "ck_SeqNo a = ck_SeqNo key") auto
      then show ?thesis
      proof cases
        case 1
        from Cons.IH[OF 1(2) d(1)] an Some True 1(1) show ?thesis
          by (auto dest: less_trans)
      next
        case 2
        from Cons.IH[OF 2(2) d(1)] d(2) Some True 2(1) show ?thesis
          by (auto dest: less_trans)
      qed
    qed
  qed
qed


text \<open>
  Two passing keys with the greatest passing sequence number make the selection panic,
  whatever the order of the keys.
\<close>

lemma selectCheckpoint_conflict_at_maximum:
  assumes "distinct ks" "k1 \<in> set ks" "k2 \<in> set ks" "k1 \<noteq> k2"
    and "passes config ecs cps k1" "passes config ecs cps k2" "ck_SeqNo k1 = ck_SeqNo k2"
    and "\<forall>k \<in> set ks. passes config ecs cps k \<longrightarrow> ck_SeqNo k \<le> ck_SeqNo k1"
  shows "selectCheckpoint config ecs cps ks None =
           Inl (Panic ''two correct quorums have different checkpoints for same seqno'')"
proof (cases "selectCheckpoint config ecs cps ks None")
  case (Inl e)
  with selectCheckpoint_Inl[OF Inl] show ?thesis by simp
next
  case (Inr r)
  note R = selectCheckpoint_result[OF Inr assms(1)]
  from R assms(2,5) obtain m where m: "r = Some m" by (cases r) auto
  with R have mp: "m \<in> set ks" "passes config ecs cps m"
    and top: "\<forall>k \<in> set ks. passes config ecs cps k \<longrightarrow> k = m \<or> ck_SeqNo k < ck_SeqNo m"
    by auto
  from assms(8) mp have "ck_SeqNo m \<le> ck_SeqNo k1" by auto
  with top assms(2,3,5,6,7) have "k1 = m" "k2 = m" by (auto simp: not_less[symmetric])
  with assms(4) show ?thesis by simp
qed











section \<open>The hash data of an epoch change: layout\<close>

text \<open>The most significant byte comes first.\<close>

lemma uint64ToBytes_example: "uint64ToBytes 72623859790382856 = [1, 2, 3, 4, 5, 6, 7, 8]"
  by (simp add: uint64ToBytes_def drop_bit_eq_div)

lemma length_uint64ToBytes: "length (uint64ToBytes w) = 8"
  by (simp add: uint64ToBytes_def)

lemma setAt_mid: "setAt (pre @ x # post) (length pre) v = Inr (pre @ v # post)"
  by (simp add: setAt_def)

lemma checkpointsLoop_fill:
  assumes "length pre = cpOffset + 2 * i" "length mid = 2 * length cps"
  shows "checkpointsLoop (pre @ mid @ post) cpOffset i cps =
           Inr (pre @ concat (map checkpointData cps) @ post)"
  using assms
proof (induction cps arbitrary: pre mid i)
  case Nil
  then show ?case by simp
next
  case (Cons cp cps)
  from Cons.prems(2) obtain a b mid' where mid: "mid = a # b # mid'" "length mid' = 2 * length cps"
    by (cases mid; cases "tl mid") auto
  have 1: "setAt (pre @ mid @ post) (cpOffset + 2 * i) (uint64ToBytes (cp_SeqNo cp)) =
      Inr (pre @ uint64ToBytes (cp_SeqNo cp) # b # mid' @ post)"
    using setAt_mid[of pre a "b # mid' @ post"] Cons.prems(1) mid by simp
  have 2: "setAt (pre @ uint64ToBytes (cp_SeqNo cp) # b # mid' @ post) (cpOffset + 2 * i + 1) (cp_Value cp) =
      Inr ((pre @ checkpointData cp) @ mid' @ post)"
    using setAt_mid[of "pre @ [uint64ToBytes (cp_SeqNo cp)]" b "mid' @ post"] Cons.prems(1)
    by (simp add: checkpointData_def)
  have step: "checkpointsLoop (pre @ mid @ post) cpOffset i (cp # cps) =
      checkpointsLoop ((pre @ checkpointData cp) @ mid' @ post) cpOffset (i + 1) cps"
    by (simp only: checkpointsLoop.simps 1 2 sum.case)
  have "checkpointsLoop ((pre @ checkpointData cp) @ mid' @ post) cpOffset (i + 1) cps =
      Inr ((pre @ checkpointData cp) @ concat (map checkpointData cps) @ post)"
    by (rule Cons.IH) (use Cons.prems(1) mid in \<open>auto simp: checkpointData_def\<close>)
  then show ?case
    unfolding step by simp
qed

lemma entriesLoop_fill:
  assumes "length pre = entryOffset + 3 * i" "length mid = 3 * length entries"
  shows "entriesLoop (pre @ mid @ post) entryOffset i entries =
           Inr (pre @ concat (map entryData entries) @ post)"
  using assms
proof (induction entries arbitrary: pre mid i)
  case Nil
  then show ?case by simp
next
  case (Cons entry entries)
  from Cons.prems(2) obtain a b c mid' where mid: "mid = a # b # c # mid'"
      "length mid' = 3 * length entries"
    by (cases mid; cases "tl mid"; cases "tl (tl mid)") auto
  have 1: "setAt (pre @ mid @ post) (entryOffset + 3 * i) (uint64ToBytes (se_Epoch entry)) =
      Inr (pre @ uint64ToBytes (se_Epoch entry) # b # c # mid' @ post)"
    using setAt_mid[of pre a "b # c # mid' @ post"] Cons.prems(1) mid by simp
  have 2: "setAt (pre @ uint64ToBytes (se_Epoch entry) # b # c # mid' @ post)
        (entryOffset + 3 * i + 1) (uint64ToBytes (se_SeqNo entry)) =
      Inr (pre @ uint64ToBytes (se_Epoch entry) # uint64ToBytes (se_SeqNo entry) # c # mid' @ post)"
    using setAt_mid[of "pre @ [uint64ToBytes (se_Epoch entry)]" b "c # mid' @ post"] Cons.prems(1)
    by simp
  have 3: "setAt (pre @ uint64ToBytes (se_Epoch entry) # uint64ToBytes (se_SeqNo entry) # c # mid' @ post)
        (entryOffset + 3 * i + 2) (se_Digest entry) =
      Inr ((pre @ entryData entry) @ mid' @ post)"
    using setAt_mid[of "pre @ [uint64ToBytes (se_Epoch entry), uint64ToBytes (se_SeqNo entry)]"
        c "mid' @ post"] Cons.prems(1)
    by (simp add: entryData_def)
  have step: "entriesLoop (pre @ mid @ post) entryOffset i (entry # entries) =
      entriesLoop ((pre @ entryData entry) @ mid' @ post) entryOffset (i + 1) entries"
    by (simp only: entriesLoop.simps 1 2 3 sum.case)
  have "entriesLoop ((pre @ entryData entry) @ mid' @ post) entryOffset (i + 1) entries =
      Inr ((pre @ entryData entry) @ concat (map entryData entries) @ post)"
    by (rule Cons.IH) (use Cons.prems(1) mid in \<open>auto simp: entryData_def\<close>)
  then show ?case
    unfolding step by simp
qed

lemma length_concat_checkpointData: "length (concat (map checkpointData cps)) = 2 * length cps"
  by (induction cps) (auto simp: checkpointData_def)

lemma length_concat_entryData: "length (concat (map entryData es)) = 3 * length es"
  by (induction es) (auto simp: entryData_def)

lemma length_hashData_spec:
  "length (hashData_spec ec) =
     1 + 2 * length (Checkpoints ec) + 3 * length (PSet ec) + 3 * length (QSet ec)"
  by (simp add: hashData_spec_def length_concat_checkpointData length_concat_entryData)

lemma epochChangeHashData_returns_layout: "epochChangeHashData ec = Inr (hashData_spec ec)"
proof -
  let ?c = "length (Checkpoints ec)" and ?p = "length (PSet ec)" and ?q = "length (QSet ec)"
  let ?e = "uint64ToBytes (NewEpoch ec)"
  let ?C = "concat (map checkpointData (Checkpoints ec))"
  let ?P = "concat (map entryData (PSet ec))"
  let ?Q = "concat (map entryData (QSet ec))"
  let ?rp = "replicate (?p * 3) ([] :: bytes)" and ?rq = "replicate (?q * 3) ([] :: bytes)"
  have rep: "replicate (1 + ?c * 2 + ?p * 3 + ?q * 3) ([] :: bytes) =
      [] # replicate (?c * 2) [] @ ?rp @ ?rq"
    by (simp add: replicate_add)
  have 0: "setAt (replicate (1 + ?c * 2 + ?p * 3 + ?q * 3) []) 0 ?e =
      Inr ([?e] @ replicate (?c * 2) [] @ (?rp @ ?rq))"
    unfolding rep using setAt_mid[of "[]" "[]" _ ?e] by simp
  have 1: "checkpointsLoop ([?e] @ replicate (?c * 2) [] @ (?rp @ ?rq)) 1 0 (Checkpoints ec) =
      Inr ([?e] @ ?C @ (?rp @ ?rq))"
    by (rule checkpointsLoop_fill) auto
  have 2: "entriesLoop (([?e] @ ?C) @ ?rp @ ?rq) (1 + ?c * 2) 0 (PSet ec) =
      Inr (([?e] @ ?C) @ ?P @ ?rq)"
    by (rule entriesLoop_fill) (auto simp: length_concat_checkpointData)
  have 3: "entriesLoop (([?e] @ ?C @ ?P) @ ?rq @ []) (1 + ?c * 2 + ?p * 3) 0 (QSet ec) =
      Inr (([?e] @ ?C @ ?P) @ ?Q @ [])"
    by (rule entriesLoop_fill) (auto simp: length_concat_checkpointData length_concat_entryData)
  show ?thesis
    unfolding epochChangeHashData_def Let_def 0
    using 1 2 3
    by (simp add: hashData_spec_def length_concat_checkpointData length_concat_entryData)
qed

text \<open>
  C9. For every EpochChange, \<open>epochChangeHashData\<close> returns (no write is out of range,
  the length check does not panic) the layout of the spec: the encoding of \<open>NewEpoch\<close>,
  then \<open>(SeqNo, Value)\<close> for each checkpoint in order, then \<open>(Epoch, SeqNo, Digest)\<close> for
  each \<open>PSet\<close> entry and then for each \<open>QSet\<close> entry in order; its length is
  \<open>1 + 2|Checkpoints| + 3|PSet| + 3|QSet|\<close>.
\<close>

theorem epochChangeHashData_layout:
  "epochChangeHashData ec = Inr (hashData_spec ec) \<and>
   length (hashData_spec ec) =
     1 + 2 * length (Checkpoints ec) + 3 * length (PSet ec) + 3 * length (QSet ec) \<and>
   hashData_spec ec ! 0 = uint64ToBytes (NewEpoch ec) \<and>
   length (uint64ToBytes (NewEpoch ec)) = 8"
  using epochChangeHashData_returns_layout length_hashData_spec length_uint64ToBytes
  by (simp add: hashData_spec_def)

end
